theory Spec2Isabelle
  imports Main
begin

section \<open>Text primitives of the host language\<close>

text \<open>
  The program of \<^verbatim>\<open>filter_coverage.py\<close> works on the decoded text of an LCOV tracefile.
  A text is a \<^typ>\<open>string\<close>; one \<^typ>\<open>char\<close> stands for one code point below 256.
  The functions of this section are the library calls the program makes
  (\<^verbatim>\<open>str.startswith\<close>, \<^verbatim>\<open>str.split\<close>, \<^verbatim>\<open>str.join\<close>, \<^verbatim>\<open>str.strip\<close>,
  \<^verbatim>\<open>int\<close>, \<^verbatim>\<open>str\<close> of an integer, \<^verbatim>\<open>re.search\<close> and \<^verbatim>\<open>re.split\<close> with the two
  patterns of the program).
\<close>

definition newline :: char where
  "newline = CHR 0x0A"

definition startswith :: "string \<Rightarrow> string \<Rightarrow> bool" where
  "startswith s p = (take (length p) s = p)"

text \<open>\<^verbatim>\<open>s.split(sep)\<close> for a one-character separator: never empty, keeps empty fields.\<close>

fun split_on :: "char \<Rightarrow> string \<Rightarrow> string list" where
  "split_on sep [] = [[]]"
| "split_on sep (c # cs) =
     (if c = sep then [] # split_on sep cs
      else (case split_on sep cs of
              [] \<Rightarrow> [[c]]
            | w # ws \<Rightarrow> (c # w) # ws))"

text \<open>\<^verbatim>\<open>sep.join(xs)\<close> for a one-character separator.\<close>

fun join_with :: "char \<Rightarrow> string list \<Rightarrow> string" where
  "join_with sep [] = []"
| "join_with sep [x] = x"
| "join_with sep (x # y # ys) = x @ sep # join_with sep (y # ys)"

text \<open>
  \<^verbatim>\<open>str.isspace\<close> on one code point below 256: the ASCII white space, the four
  separators 0x1C to 0x1F, NEL (0x85) and the no-break space (0xA0).
\<close>

definition py_isspace :: "char \<Rightarrow> bool" where
  "py_isspace c = ((of_char c :: nat) \<in> {9, 10, 11, 12, 13, 28, 29, 30, 31, 32, 133, 160})"

definition py_strip :: "string \<Rightarrow> string" where
  "py_strip s = rev (dropWhile py_isspace (rev (dropWhile py_isspace s)))"

text \<open>
  \<^verbatim>\<open>int(s)\<close> in base 10: white space on both sides is skipped (here the separators
  0x1C to 0x1F do not count as white space), then comes an optional sign and a
  non-empty run of decimal digits in which two digits may be separated by one
  underscore. The interpreter converts at most \<^verbatim>\<open>sys.int_info.default_max_str_digits\<close>
  digits, 4300, leading zeros included and underscores not counted, in either direction:
  a longer run of digits is refused by \<^verbatim>\<open>int\<close>, and so is the rendering of an integer
  with more decimal digits by \<^verbatim>\<open>str\<close> and by an f-string. Every failure is a
  \<^verbatim>\<open>ValueError\<close>, the value \<open>None\<close> here.
\<close>

definition int_max_str_digits :: nat where
  "int_max_str_digits = 4300"

definition int_isspace :: "char \<Rightarrow> bool" where
  "int_isspace c = ((of_char c :: nat) \<in> {9, 10, 11, 12, 13, 32, 133, 160})"

definition is_digit :: "char \<Rightarrow> bool" where
  "is_digit c = (48 \<le> (of_char c :: nat) \<and> (of_char c :: nat) \<le> 57)"

definition digit_val :: "char \<Rightarrow> nat" where
  "digit_val c = of_char c - 48"

fun parse_digits :: "nat \<Rightarrow> string \<Rightarrow> nat option" where
  "parse_digits acc [] = Some acc"
| "parse_digits acc (c # cs) =
     (if is_digit c then parse_digits (acc * 10 + digit_val c) cs
      else if c = CHR ''_'' then
        (case cs of
           [] \<Rightarrow> None
         | d # ds \<Rightarrow> if is_digit d then parse_digits (acc * 10 + digit_val d) ds else None)
      else None)"

definition parse_nat :: "string \<Rightarrow> nat option" where
  "parse_nat s =
     (case s of
        [] \<Rightarrow> None
      | c # cs \<Rightarrow> if is_digit c then parse_digits (digit_val c) cs else None)"

definition parse_limited :: "string \<Rightarrow> nat option" where
  "parse_limited s =
     (if int_max_str_digits < length (filter is_digit s) then None else parse_nat s)"

definition py_int :: "string \<Rightarrow> int option" where
  "py_int s =
     (let t = rev (dropWhile int_isspace (rev (dropWhile int_isspace s)))
      in case t of
           [] \<Rightarrow> None
         | c # cs \<Rightarrow>
             if c = CHR ''-'' then map_option (\<lambda>n. - int n) (parse_limited cs)
             else if c = CHR ''+'' then map_option int (parse_limited cs)
             else map_option int (parse_limited t))"

text \<open>
  \<^verbatim>\<open>str(n)\<close> of an integer, which is also what \<^verbatim>\<open>f'{n}'\<close> gives: its decimal digits, after
  a minus sign when negative, or \<^verbatim>\<open>ValueError\<close> when there are more than 4300 digits.
\<close>

definition digit_char :: "nat \<Rightarrow> char" where
  "digit_char d = char_of (48 + d)"

function nat_digits :: "nat \<Rightarrow> string" where
  "nat_digits n = (if n < 10 then [digit_char n] else nat_digits (n div 10) @ [digit_char (n mod 10)])"
  by pat_completeness auto
termination
  by (relation "measure (\<lambda>n. n)") auto

definition py_str :: "int \<Rightarrow> string option" where
  "py_str i =
     (let ds = nat_digits (nat \<bar>i\<bar>)
      in if int_max_str_digits < length ds then None
         else Some (if i < 0 then CHR ''-'' # ds else ds))"

text \<open>\<^verbatim>\<open>re.search(r'D[012]Ev', line)\<close>: the four characters occur somewhere in the line.\<close>

fun has_dtor :: "string \<Rightarrow> bool" where
  "has_dtor (a # b # c # d # rest) =
     ((a = CHR ''D'' \<and> (b = CHR ''0'' \<or> b = CHR ''1'' \<or> b = CHR ''2'') \<and> c = CHR ''E'' \<and> d = CHR ''v'')
      \<or> has_dtor (b # c # d # rest))"
| "has_dtor _ = False"

text \<open>
  \<^verbatim>\<open>re.split(r'(SF:.*?\n)', content)\<close>. The pattern is not anchored: a match starts at
  the leftmost \<^verbatim>\<open>SF:\<close> that has a newline somewhere after it and runs through the first
  such newline. \<open>next_marker\<close> is the search for the next match: the text before it, the
  match, and the text after it.
\<close>

fun next_marker :: "string \<Rightarrow> (string \<times> string \<times> string) option" where
  "next_marker [] = None"
| "next_marker (c # cs) =
     (if startswith (c # cs) ''SF:'' \<and> newline \<in> set cs
      then Some ([], takeWhile (\<lambda>x. x \<noteq> newline) (c # cs) @ [newline],
                 tl (dropWhile (\<lambda>x. x \<noteq> newline) (c # cs)))
      else (case next_marker cs of
              None \<Rightarrow> None
            | Some (pre, m, rest) \<Rightarrow> Some (c # pre, m, rest)))"

function re_split_sf :: "string \<Rightarrow> string list" where
  "re_split_sf s =
     (case next_marker s of
        None \<Rightarrow> [s]
      | Some (pre, m, rest) \<Rightarrow> pre # m # re_split_sf rest)"
  by pat_completeness auto
termination
proof (relation "measure length")
  have shorter: "next_marker s = Some (pre, m, rest) \<Longrightarrow> length rest < length s"
    for s pre m rest
  proof (induction s arbitrary: pre)
    case Nil
    then show ?case by simp
  next
    case (Cons c cs)
    show ?case
    proof (cases "startswith (c # cs) ''SF:'' \<and> newline \<in> set cs")
      case True
      with Cons.prems have "rest = tl (dropWhile (\<lambda>x. x \<noteq> newline) (c # cs))"
        by simp
      moreover have "length (dropWhile (\<lambda>x. x \<noteq> newline) (c # cs)) \<le> length (c # cs)"
        by (rule length_dropWhile_le)
      moreover from True have "dropWhile (\<lambda>x. x \<noteq> newline) (c # cs) \<noteq> []"
        by auto
      ultimately show ?thesis
        by (cases "dropWhile (\<lambda>x. x \<noteq> newline) (c # cs)") auto
    next
      case False
      with Cons.prems obtain pre' where "next_marker cs = Some (pre', m, rest)"
        by (auto split: option.splits)
      from Cons.IH [OF this] show ?thesis by simp
    qed
  qed
  show "wf (measure length)" by simp
  show "(rest, s) \<in> measure length" if "next_marker s = Some x" "(pre, y) = x" "(m, rest) = y"
    for s x pre y m rest
    using that shorter [of s pre m rest] by simp
qed

declare re_split_sf.simps [simp del]

section \<open>The program\<close>

text \<open>
  The failures of the program are exceptions of the host language that nothing catches:
  \<open>FileAccessError\<close> is the \<^verbatim>\<open>OSError\<close> of \<^verbatim>\<open>open\<close>, \<open>FormatError\<close> the \<^verbatim>\<open>ValueError\<close>
  of \<^verbatim>\<open>int\<close>, \<open>IndexError\<close> the one of \<^verbatim>\<open>parts[1]\<close>.
\<close>

datatype error = FileAccessError | FormatError | IndexError

text \<open>The local variables of \<^verbatim>\<open>filter_lcov\<close> that the two loops update.\<close>

record vars =
  output_sections :: "string list"
  total_filtered :: int
  filtered_lines :: "string list"
  fnf_adjust :: int
  fnh_adjust :: int

text \<open>\<^verbatim>\<open>xs[1]\<close>: the second element, or \<^verbatim>\<open>IndexError\<close>.\<close>

definition second :: "string list \<Rightarrow> error + string" where
  "second xs = (if 2 \<le> length xs then Inr (xs ! 1) else Inl IndexError)"

text \<open>\<^verbatim>\<open>int(line.split(':')[1])\<close>.\<close>

definition count_field :: "string \<Rightarrow> error + int" where
  "count_field line =
     (case second (split_on CHR '':'' line) of
        Inl e \<Rightarrow> Inl e
      | Inr field \<Rightarrow> (case py_int field of None \<Rightarrow> Inl FormatError | Some n \<Rightarrow> Inr n))"

text \<open>
  Lines 42 to 44, and 49 to 51: the count of a summary line is parsed, the adjustment is
  subtracted and the line is written anew with \<^verbatim>\<open>f'FNF:{new_count}'\<close>.
\<close>

definition render_count :: "string \<Rightarrow> string \<Rightarrow> int \<Rightarrow> error + string" where
  "render_count prefix line adjust =
     (case count_field line of
        Inl e \<Rightarrow> Inl e
      | Inr old_count \<Rightarrow>
          (case py_str (old_count - adjust) of
             None \<Rightarrow> Inl FormatError
           | Some new_count \<Rightarrow> Inr (prefix @ new_count)))"

text \<open>
  The body of the inner loop (lines 29 to 54 of the source) on one line. The result is the
  exception raised, if any, and the variables as they are when the body is left: the two
  increments of a removed record happen before its hit count is parsed.
\<close>

definition process_line :: "string \<Rightarrow> vars \<Rightarrow> error option \<times> vars" where
  "process_line line st =
     (if (startswith line ''FN:'' \<or> startswith line ''FNDA:'' \<or> startswith line ''FNA:'')
         \<and> has_dtor line
      then
        (let st1 = st\<lparr>total_filtered := total_filtered st + 1, fnf_adjust := fnf_adjust st + 1\<rparr>
         in if startswith line ''FNA:'' then
              (let parts = split_on CHR '','' line
               in if 2 \<le> length parts then
                    (case py_int (parts ! 1) of
                       None \<Rightarrow> (Some FormatError, st1)
                     | Some hits \<Rightarrow>
                         if 0 < hits then (None, st1\<lparr>fnh_adjust := fnh_adjust st1 + 1\<rparr>)
                         else (None, st1))
                  else (None, st1))
            else (None, st1))
      else if startswith line ''FNF:'' then
        (case render_count ''FNF:'' line (fnf_adjust st) of
           Inl e \<Rightarrow> (Some e, st)
         | Inr new_line \<Rightarrow> (None, st\<lparr>filtered_lines := filtered_lines st @ [new_line]\<rparr>))
      else if startswith line ''FNH:'' then
        (case render_count ''FNH:'' line (fnh_adjust st) of
           Inl e \<Rightarrow> (Some e, st)
         | Inr new_line \<Rightarrow> (None, st\<lparr>filtered_lines := filtered_lines st @ [new_line]\<rparr>))
      else (None, st\<lparr>filtered_lines := filtered_lines st @ [line]\<rparr>))"

text \<open>The inner loop: it stops at the first exception.\<close>

fun process_lines :: "string list \<Rightarrow> vars \<Rightarrow> error option \<times> vars" where
  "process_lines [] st = (None, st)"
| "process_lines (line # lines) st =
     (case process_line line st of
        (Some e, st') \<Rightarrow> (Some e, st')
      | (None, st') \<Rightarrow> process_lines lines st')"

text \<open>The outer loop over the segments of the partition (lines 17 to 56).\<close>

fun process_sections :: "string list \<Rightarrow> vars \<Rightarrow> error option \<times> vars" where
  "process_sections [] st = (None, st)"
| "process_sections (section # sections) st =
     (if startswith section ''SF:'' then
        process_sections sections (st\<lparr>output_sections := output_sections st @ [section]\<rparr>)
      else if py_strip section \<noteq> [] then
        (case process_lines (split_on newline section)
                (st\<lparr>filtered_lines := [], fnf_adjust := 0, fnh_adjust := 0\<rparr>) of
           (Some e, st') \<Rightarrow> (Some e, st')
         | (None, st') \<Rightarrow>
             process_sections sections
               (st'\<lparr>output_sections :=
                  output_sections st' @ [join_with newline (filtered_lines st')]\<rparr>))
      else process_sections sections st)"

definition init_vars :: vars where
  "init_vars = \<lparr>output_sections = [], total_filtered = 0, filtered_lines = [],
                 fnf_adjust = 0, fnh_adjust = 0\<rparr>"

text \<open>
  Lines 12 to 56 and the argument of \<^verbatim>\<open>f.write\<close>: from the text read to the exception
  raised, if any, the text to write and the count to print.
\<close>

definition filter_text :: "string \<Rightarrow> error option \<times> string \<times> int" where
  "filter_text content =
     (case process_sections (re_split_sf content) init_vars of
        (e, st) \<Rightarrow> (e, concat (output_sections st), total_filtered st))"

text \<open>
  The files and the standard output. \<open>files w p\<close> is the decoded text of the readable file
  at path \<open>p\<close>, \<open>writable w p\<close> says whether \<open>p\<close> can be opened for writing. The count is
  printed after the file is written (line 61).
\<close>

record world =
  files :: "string \<Rightarrow> string option"
  writable :: "string \<Rightarrow> bool"
  stdout :: "string list"

definition filter_lcov :: "string \<Rightarrow> string \<Rightarrow> world \<Rightarrow> error option \<times> world" where
  "filter_lcov input_file output_file w =
     (case files w input_file of
        None \<Rightarrow> (Some FileAccessError, w)
      | Some content \<Rightarrow>
          (case filter_text content of
             (Some e, _) \<Rightarrow> (Some e, w)
           | (None, out, filtered) \<Rightarrow>
               if writable w output_file then
                 (let w' = w\<lparr>files := (files w)(output_file \<mapsto> out)\<rparr>
                  in case py_str filtered of
                       None \<Rightarrow> (Some FormatError, w')
                     | Some count \<Rightarrow>
                         (None, w'\<lparr>stdout := stdout w'
                                   @ [''Filtered '' @ count @ '' destructor entries'']\<rparr>))
               else (Some FileAccessError, w)))"

section \<open>Vocabulary of the statements\<close>

text \<open>The three kinds of per-function records, and the two summary lines.\<close>

definition is_fn_record :: "string \<Rightarrow> bool" where
  "is_fn_record line =
     (startswith line ''FN:'' \<or> startswith line ''FNDA:'' \<or> startswith line ''FNA:'')"

definition is_summary :: "string \<Rightarrow> bool" where
  "is_summary line = (startswith line ''FNF:'' \<or> startswith line ''FNH:'')"

text \<open>The condition of line 30: the record of a destructor, which the pass removes.\<close>

definition removed :: "string \<Rightarrow> bool" where
  "removed line = (is_fn_record line \<and> has_dtor line)"

text \<open>
  The condition of lines 34 to 36: a removed \<^verbatim>\<open>FNA:\<close> record whose second comma-separated
  field is an integer greater than 0.
\<close>

definition removed_hit :: "string \<Rightarrow> bool" where
  "removed_hit line =
     (removed line \<and> startswith line ''FNA:'' \<and>
      (let parts = split_on CHR '','' line
       in 2 \<le> length parts \<and>
          (case py_int (parts ! 1) of None \<Rightarrow> False | Some hits \<Rightarrow> 0 < hits)))"

definition removed_count :: "string list \<Rightarrow> int" where
  "removed_count ls = int (length (filter removed ls))"

definition removed_hit_count :: "string list \<Rightarrow> int" where
  "removed_hit_count ls = int (length (filter removed_hit ls))"

text \<open>A line that is neither a per-function record nor a summary line.\<close>

definition is_other :: "string \<Rightarrow> bool" where
  "is_other line = (\<not> is_fn_record line \<and> \<not> is_summary line)"

text \<open>
  \<open>rewritten a h line line'\<close>: \<open>line'\<close> is what a line that is not removed becomes when
  the found-adjustment is \<open>a\<close> and the hit-adjustment is \<open>h\<close>.
\<close>

definition rewritten :: "int \<Rightarrow> int \<Rightarrow> string \<Rightarrow> string \<Rightarrow> bool" where
  "rewritten a h line line' =
     (if startswith line ''FNF:'' then render_count ''FNF:'' line a = Inr line'
      else if startswith line ''FNH:'' then render_count ''FNH:'' line h = Inr line'
      else line' = line)"

text \<open>All the per-function records of a section stand before its summary lines.\<close>

definition records_first :: "string list \<Rightarrow> bool" where
  "records_first ls = (\<forall>l\<in>set (dropWhile (\<lambda>l. \<not> is_summary l) ls). \<not> is_fn_record l)"

text \<open>
  One segment of the partition run through the pass on its own, with the counters at 0:
  the outcome of the inner loop, the text the segment contributes to the output and the
  number of records removed from it.
\<close>

definition section_result :: "string \<Rightarrow> error option \<times> vars" where
  "section_result seg = process_lines (split_on newline seg) init_vars"

definition segment_output :: "string \<Rightarrow> string" where
  "segment_output seg =
     (if startswith seg ''SF:'' then seg
      else if py_strip seg \<noteq> [] then join_with newline (filtered_lines (snd (section_result seg)))
      else [])"

definition segment_removed :: "string \<Rightarrow> int" where
  "segment_removed seg =
     (if startswith seg ''SF:'' then 0
      else if py_strip seg \<noteq> [] then total_filtered (snd (section_result seg))
      else 0)"

text \<open>A line that starts with none of the six prefixes the program looks at.\<close>

definition is_plain :: "string \<Rightarrow> bool" where
  "is_plain line = (is_other line \<and> \<not> startswith line ''SF:'')"

text \<open>
  The shape of a partition. \<open>has_sf s\<close>: the three characters \<^verbatim>\<open>SF:\<close> occur somewhere in
  \<open>s\<close>. \<open>has_match s\<close>: they occur somewhere in \<open>s\<close> with a newline after them, which is
  where the pattern of the split matches. \<open>is_marker m\<close>: \<open>m\<close> is one match, from \<^verbatim>\<open>SF:\<close>
  through the first newline. \<open>well_split\<close>: content and markers alternate, from a content
  segment to a content segment; a content segment before a marker holds no \<^verbatim>\<open>SF:\<close> and the
  last one holds no match.
\<close>

fun has_sf :: "string \<Rightarrow> bool" where
  "has_sf [] = False"
| "has_sf (c # cs) = (startswith (c # cs) ''SF:'' \<or> has_sf cs)"

fun has_match :: "string \<Rightarrow> bool" where
  "has_match [] = False"
| "has_match (c # cs) = ((startswith (c # cs) ''SF:'' \<and> newline \<in> set cs) \<or> has_match cs)"

definition is_marker :: "string \<Rightarrow> bool" where
  "is_marker m = (startswith m ''SF:'' \<and> last m = newline \<and> newline \<notin> set (butlast m))"

fun well_split :: "string list \<Rightarrow> bool" where
  "well_split [] = False"
| "well_split [c] = (\<not> has_match c)"
| "well_split (c # m # segs) = (\<not> has_sf c \<and> is_marker m \<and> well_split segs)"


section \<open>Facts about the text primitives\<close>

lemma startswith_iff: "startswith s p \<longleftrightarrow> (\<exists>r. s = p @ r)"
  unfolding startswith_def
  by (metis append_eq_conv_conj append_take_drop_id)

lemma summary_not_record:
  assumes "startswith line ''FNF:'' \<or> startswith line ''FNH:''"
  shows "\<not> startswith line ''FN:''" and "\<not> startswith line ''FNDA:''"
    and "\<not> startswith line ''FNA:''"
proof -
  from assms obtain r where "line = ''FNF:'' @ r \<or> line = ''FNH:'' @ r"
    by (auto simp: startswith_iff)
  then show "\<not> startswith line ''FN:''" and "\<not> startswith line ''FNDA:''"
    and "\<not> startswith line ''FNA:''"
    by (auto simp: startswith_def)
qed

lemma fnh_not_fnf: "startswith line ''FNH:'' \<Longrightarrow> \<not> startswith line ''FNF:''"
  by (auto simp: startswith_iff)

lemma split_on_not_Nil [simp]: "split_on sep s \<noteq> []"
  by (induction s) (auto split: list.splits)

lemma split_on_no_sep: "sep \<notin> set s \<Longrightarrow> split_on sep s = [s]"
  by (induction s) auto

lemma split_on_append_sep:
  "sep \<notin> set a \<Longrightarrow> split_on sep (a @ sep # b) = a # split_on sep b"
  by (induction a) auto

lemma split_on_fields: "l \<in> set (split_on sep s) \<Longrightarrow> sep \<notin> set l \<and> set l \<subseteq> set s"
proof (induction s arbitrary: l)
  case Nil
  then show ?case by simp
next
  case (Cons c cs)
  show ?case
  proof (cases "c = sep")
    case True
    with Cons show ?thesis by auto
  next
    case False
    obtain w ws where w: "split_on sep cs = w # ws"
      by (cases "split_on sep cs") auto
    with False Cons.prems have "l = c # w \<or> l \<in> set ws" by auto
    then show ?thesis
    proof
      assume "l = c # w"
      moreover from Cons.IH [of w] w have "sep \<notin> set w \<and> set w \<subseteq> set cs" by simp
      ultimately show ?thesis using False by auto
    next
      assume "l \<in> set ws"
      with Cons.IH [of l] w show ?thesis by auto
    qed
  qed
qed

lemma join_split: "join_with sep (split_on sep s) = s"
proof (induction s)
  case Nil
  then show ?case by simp
next
  case (Cons c cs)
  obtain w ws where w: "split_on sep cs = w # ws"
    by (cases "split_on sep cs") auto
  with Cons show ?case
    by (cases ws) auto
qed

lemma split_join:
  "ls \<noteq> [] \<Longrightarrow> \<forall>l\<in>set ls. sep \<notin> set l \<Longrightarrow> split_on sep (join_with sep ls) = ls"
proof (induction sep ls rule: join_with.induct)
  case (1 sep)
  then show ?case by simp
next
  case (2 sep x)
  then show ?case by (simp add: split_on_no_sep)
next
  case (3 sep x y ys)
  then show ?case by (simp add: split_on_append_sep)
qed

lemma summary_second:
  assumes "startswith line ''FNF:'' \<or> startswith line ''FNH:''"
  shows "\<exists>field. second (split_on CHR '':'' line) = Inr field"
proof -
  have *: "\<exists>field. second (split_on CHR '':'' (p @ CHR '':'' # r)) = Inr field"
    if "CHR '':'' \<notin> set p" for p r
  proof -
    have "split_on CHR '':'' (p @ CHR '':'' # r) = p # split_on CHR '':'' r"
      using that by (rule split_on_append_sep)
    moreover obtain w ws where "split_on CHR '':'' r = w # ws"
      by (cases "split_on CHR '':'' r") auto
    ultimately show ?thesis by (simp add: second_def)
  qed
  from assms obtain r where "line = ''FNF'' @ CHR '':'' # r \<or> line = ''FNH'' @ CHR '':'' # r"
    by (auto simp: startswith_iff)
  then show ?thesis
    using * [of "''FNF''" r] * [of "''FNH''" r] by auto
qed

lemma count_field_error:
  assumes "startswith line ''FNF:'' \<or> startswith line ''FNH:''"
  shows "count_field line = Inl e \<Longrightarrow> e = FormatError"
  using summary_second [OF assms]
  by (auto simp: count_field_def split: sum.splits option.splits)

section \<open>One step of the inner loop\<close>

lemma process_line_removed:
  assumes "removed line"
  shows "filtered_lines (snd (process_line line st)) = filtered_lines st"
    and "fnf_adjust (snd (process_line line st)) = fnf_adjust st + 1"
    and "total_filtered (snd (process_line line st)) = total_filtered st + 1"
    and "output_sections (snd (process_line line st)) = output_sections st"
  using assms
  by (auto simp: process_line_def removed_def is_fn_record_def Let_def split: option.splits)

lemma process_line_removed_ok:
  assumes "removed line" and "fst (process_line line st) = None"
  shows "fnh_adjust (snd (process_line line st)) =
           fnh_adjust st + (if removed_hit line then 1 else 0)"
  using assms
  by (auto simp: process_line_def removed_def removed_hit_def is_fn_record_def Let_def
           split: option.splits)

lemma process_line_removed_error:
  assumes "removed line"
  shows "fst (process_line line st) = None \<or> fst (process_line line st) = Some FormatError"
  using assms
  by (auto simp: process_line_def removed_def is_fn_record_def Let_def split: option.splits)

lemma process_line_kept:
  assumes "is_fn_record line" and "\<not> has_dtor line"
  shows "process_line line st = (None, st\<lparr>filtered_lines := filtered_lines st @ [line]\<rparr>)"
proof -
  from assms(1) have "\<not> startswith line ''FNF:''" and "\<not> startswith line ''FNH:''"
    using summary_not_record [of line] by (auto simp: is_fn_record_def)
  with assms(2) show ?thesis
    by (simp add: process_line_def)
qed

lemma render_count_Inr:
  "render_count p line a = Inr l' \<longleftrightarrow>
     (\<exists>n s. count_field line = Inr n \<and> py_str (n - a) = Some s \<and> l' = p @ s)"
  by (auto simp: render_count_def split: sum.splits option.splits)

lemma render_count_error:
  assumes "startswith line ''FNF:'' \<or> startswith line ''FNH:''"
  shows "render_count p line a = Inl e \<Longrightarrow> e = FormatError"
  using count_field_error [OF assms]
  by (auto simp: render_count_def split: sum.splits option.splits)

lemma process_line_fnf:
  assumes "startswith line ''FNF:''"
  shows "process_line line st =
           (case render_count ''FNF:'' line (fnf_adjust st) of
              Inl e \<Rightarrow> (Some e, st)
            | Inr new_line \<Rightarrow> (None, st\<lparr>filtered_lines := filtered_lines st @ [new_line]\<rparr>))"
  using assms summary_not_record [of line]
  by (simp add: process_line_def)

lemma process_line_fnh:
  assumes "startswith line ''FNH:''"
  shows "process_line line st =
           (case render_count ''FNH:'' line (fnh_adjust st) of
              Inl e \<Rightarrow> (Some e, st)
            | Inr new_line \<Rightarrow> (None, st\<lparr>filtered_lines := filtered_lines st @ [new_line]\<rparr>))"
  using assms summary_not_record [of line] fnh_not_fnf [of line]
  by (simp add: process_line_def)

lemma process_line_other:
  assumes "is_other line"
  shows "process_line line st = (None, st\<lparr>filtered_lines := filtered_lines st @ [line]\<rparr>)"
  using assms
  by (simp add: process_line_def is_other_def is_fn_record_def is_summary_def)

lemma line_cases:
  obtains (removed) "removed line"
  | (kept) "is_fn_record line" "\<not> has_dtor line"
  | (fnf) "startswith line ''FNF:''"
  | (fnh) "startswith line ''FNH:''"
  | (other) "is_other line"
  by (auto simp: removed_def is_other_def is_summary_def)

lemma process_line_error:
  "fst (process_line line st) = None \<or> fst (process_line line st) = Some FormatError"
proof (cases line rule: line_cases)
  case removed
  then show ?thesis by (rule process_line_removed_error)
next
  case kept
  then show ?thesis by (simp add: process_line_kept)
next
  case fnf
  then show ?thesis
    using render_count_error [of line "''FNF:''" "fnf_adjust st"]
    by (auto simp: process_line_fnf split: sum.splits)
next
  case fnh
  then show ?thesis
    using render_count_error [of line "''FNH:''" "fnh_adjust st"]
    by (auto simp: process_line_fnh split: sum.splits)
next
  case other
  then show ?thesis by (simp add: process_line_other)
qed

section \<open>The inner loop\<close>

lemma removed_hit_removed: "removed_hit line \<Longrightarrow> removed line"
  by (simp add: removed_hit_def)

lemma removed_not_summary: "removed line \<Longrightarrow> \<not> is_summary line"
  using summary_not_record [of line]
  by (auto simp: removed_def is_fn_record_def is_summary_def)

lemma process_line_success:
  assumes "process_line line st = (None, st')"
  shows "\<exists>emit. st' = st\<lparr>total_filtered := total_filtered st + (if removed line then 1 else 0),
                          fnf_adjust := fnf_adjust st + (if removed line then 1 else 0),
                          fnh_adjust := fnh_adjust st + (if removed_hit line then 1 else 0),
                          filtered_lines := filtered_lines st @ emit\<rparr>
           \<and> (if removed line then emit = []
               else \<exists>line'. emit = [line'] \<and> rewritten (fnf_adjust st) (fnh_adjust st) line line')"
proof (cases line rule: line_cases)
  case removed
  from assms have ok: "fst (process_line line st) = None" by simp
  have "st' = st\<lparr>total_filtered := total_filtered st + 1, fnf_adjust := fnf_adjust st + 1,
                  fnh_adjust := fnh_adjust st + (if removed_hit line then 1 else 0),
                  filtered_lines := filtered_lines st @ []\<rparr>"
    using process_line_removed [OF removed, of st] process_line_removed_ok [OF removed ok] assms
    by simp
  with removed show ?thesis by auto
next
  case kept
  then have "\<not> removed line" and "\<not> removed_hit line"
    by (auto simp: removed_def removed_hit_def)
  moreover from kept have "\<not> startswith line ''FNF:''" and "\<not> startswith line ''FNH:''"
    using summary_not_record [of line] by (auto simp: is_fn_record_def)
  ultimately show ?thesis
    using assms kept by (auto simp: process_line_kept rewritten_def)
next
  case fnf
  then have n: "\<not> removed line" "\<not> removed_hit line"
    using removed_not_summary [of line] by (auto simp: is_summary_def removed_hit_def)
  from fnf assms obtain l' where "render_count ''FNF:'' line (fnf_adjust st) = Inr l'"
    and "st' = st\<lparr>filtered_lines := filtered_lines st @ [l']\<rparr>"
    by (auto simp: process_line_fnf split: sum.splits)
  with fnf n show ?thesis by (auto simp: rewritten_def)
next
  case fnh
  then have n: "\<not> removed line" "\<not> removed_hit line"
    using removed_not_summary [of line] by (auto simp: is_summary_def removed_hit_def)
  from fnh assms obtain l' where "render_count ''FNH:'' line (fnh_adjust st) = Inr l'"
    and "st' = st\<lparr>filtered_lines := filtered_lines st @ [l']\<rparr>"
    by (auto simp: process_line_fnh split: sum.splits)
  with fnh n fnh_not_fnf [OF fnh] show ?thesis by (auto simp: rewritten_def)
next
  case other
  then have "\<not> removed line" and "\<not> removed_hit line"
    by (auto simp: removed_def removed_hit_def is_other_def)
  moreover from other have "\<not> startswith line ''FNF:''" and "\<not> startswith line ''FNH:''"
    by (auto simp: is_other_def is_summary_def)
  ultimately show ?thesis
    using assms other by (auto simp: process_line_other rewritten_def)
qed

lemma process_lines_Cons_success:
  assumes "process_lines (line # ls) st = (None, st')"
  obtains st1 where "process_line line st = (None, st1)" and "process_lines ls st1 = (None, st')"
  using assms by (auto split: prod.splits option.splits)

lemma process_lines_counters:
  assumes "process_lines ls st = (None, st')"
  shows "fnf_adjust st' = fnf_adjust st + removed_count ls
         \<and> fnh_adjust st' = fnh_adjust st + removed_hit_count ls
         \<and> total_filtered st' = total_filtered st + removed_count ls
         \<and> output_sections st' = output_sections st"
  using assms
proof (induction ls arbitrary: st)
  case Nil
  then show ?case by (simp add: removed_count_def removed_hit_count_def)
next
  case (Cons line ls)
  from Cons.prems obtain st1 where 1: "process_line line st = (None, st1)"
    and 2: "process_lines ls st1 = (None, st')"
    by (rule process_lines_Cons_success)
  from process_line_success [OF 1] Cons.IH [OF 2] show ?case
    by (auto simp: removed_count_def removed_hit_count_def)
qed

lemma process_lines_emitted:
  assumes "process_lines ls st = (None, st')"
  shows "\<exists>out. filtered_lines st' = filtered_lines st @ out
           \<and> list_all2 (\<lambda>l l'. \<exists>a h. rewritten a h l l') (filter (\<lambda>l. \<not> removed l) ls) out"
  using assms
proof (induction ls arbitrary: st)
  case Nil
  then show ?case by simp
next
  case (Cons line ls)
  from Cons.prems obtain st1 where 1: "process_line line st = (None, st1)"
    and 2: "process_lines ls st1 = (None, st')"
    by (rule process_lines_Cons_success)
  from Cons.IH [OF 2] obtain out where out: "filtered_lines st' = filtered_lines st1 @ out"
    "list_all2 (\<lambda>l l'. \<exists>a h. rewritten a h l l') (filter (\<lambda>l. \<not> removed l) ls) out"
    by blast
  from process_line_success [OF 1] obtain emit where
    e: "filtered_lines st1 = filtered_lines st @ emit"
    "if removed line then emit = []
     else \<exists>line'. emit = [line'] \<and> rewritten (fnf_adjust st) (fnh_adjust st) line line'"
    by auto
  show ?case
  proof (cases "removed line")
    case True
    with e out show ?thesis by auto
  next
    case False
    with e obtain line' where "emit = [line']"
      and "rewritten (fnf_adjust st) (fnh_adjust st) line line'" by auto
    with False e out have "filtered_lines st' = filtered_lines st @ (line' # out)"
      and "list_all2 (\<lambda>l l'. \<exists>a h. rewritten a h l l')
             (filter (\<lambda>l. \<not> removed l) (line # ls)) (line' # out)"
      by auto
    then show ?thesis by blast
  qed
qed

lemma rewritten_not_summary: "\<not> is_summary l \<Longrightarrow> rewritten a h l l' \<longleftrightarrow> l' = l"
  by (simp add: rewritten_def is_summary_def)

lemma process_lines_ordered:
  assumes "process_lines ls st = (None, st')"
    and "\<forall>l\<in>set (dropWhile (\<lambda>l. \<not> is_summary l) ls). \<not> removed l"
  shows "\<exists>out. filtered_lines st' = filtered_lines st @ out
           \<and> list_all2 (rewritten (fnf_adjust st + removed_count ls)
                                   (fnh_adjust st + removed_hit_count ls))
                (filter (\<lambda>l. \<not> removed l) ls) out"
  using assms
proof (induction ls arbitrary: st)
  case Nil
  then show ?case by simp
next
  case (Cons line ls)
  from Cons.prems(1) obtain st1 where 1: "process_line line st = (None, st1)"
    and 2: "process_lines ls st1 = (None, st')"
    by (rule process_lines_Cons_success)
  from process_line_success [OF 1] obtain emit where
    e: "filtered_lines st1 = filtered_lines st @ emit"
    "fnf_adjust st1 = fnf_adjust st + (if removed line then 1 else 0)"
    "fnh_adjust st1 = fnh_adjust st + (if removed_hit line then 1 else 0)"
    "if removed line then emit = []
     else \<exists>line'. emit = [line'] \<and> rewritten (fnf_adjust st) (fnh_adjust st) line line'"
    by auto
  have tail: "\<forall>l\<in>set (dropWhile (\<lambda>l. \<not> is_summary l) ls). \<not> removed l"
    using Cons.prems(2) set_dropWhileD by (fastforce split: if_splits)
  from Cons.IH [OF 2 tail] obtain out where out: "filtered_lines st' = filtered_lines st1 @ out"
    "list_all2 (rewritten (fnf_adjust st1 + removed_count ls) (fnh_adjust st1 + removed_hit_count ls))
       (filter (\<lambda>l. \<not> removed l) ls) out"
    by blast
  show ?case
  proof (cases "is_summary line")
    case True
    with Cons.prems(2) have none: "\<forall>l\<in>set (line # ls). \<not> removed l" by simp
    then have "filter removed (line # ls) = []" and "filter removed_hit (line # ls) = []"
      by (auto simp: filter_empty_conv dest: removed_hit_removed)
    then have z: "removed_count (line # ls) = 0" "removed_hit_count (line # ls) = 0"
      "removed_count ls = 0" "removed_hit_count ls = 0"
      by (auto simp: removed_count_def removed_hit_count_def split: if_splits)
    from none have nr: "\<not> removed line" "\<not> removed_hit line"
      by (auto dest: removed_hit_removed)
    with e obtain line' where l': "emit = [line']"
      "rewritten (fnf_adjust st) (fnh_adjust st) line line'" by auto
    with nr e out z have "filtered_lines st' = filtered_lines st @ (line' # out)"
      and "list_all2 (rewritten (fnf_adjust st + removed_count (line # ls))
                                (fnh_adjust st + removed_hit_count (line # ls)))
             (filter (\<lambda>l. \<not> removed l) (line # ls)) (line' # out)"
      by auto
    then show ?thesis by blast
  next
    case False
    show ?thesis
    proof (cases "removed line")
      case True
      then have "removed_count (line # ls) = 1 + removed_count ls"
        and "removed_hit_count (line # ls) = (if removed_hit line then 1 else 0) + removed_hit_count ls"
        by (auto simp: removed_count_def removed_hit_count_def)
      with True e out have "filtered_lines st' = filtered_lines st @ out"
        and "list_all2 (rewritten (fnf_adjust st + removed_count (line # ls))
                                  (fnh_adjust st + removed_hit_count (line # ls)))
               (filter (\<lambda>l. \<not> removed l) (line # ls)) out"
        by (auto simp: add.assoc)
      then show ?thesis by blast
    next
      case nr: False
      then have nh: "\<not> removed_hit line" by (auto dest: removed_hit_removed)
      with nr have c: "removed_count (line # ls) = removed_count ls"
        "removed_hit_count (line # ls) = removed_hit_count ls"
        by (auto simp: removed_count_def removed_hit_count_def)
      from nr e obtain line' where "emit = [line']"
        and "rewritten (fnf_adjust st) (fnh_adjust st) line line'" by auto
      with False have l': "emit = [line]" by (simp add: rewritten_not_summary)
      with nr nh e out c False have "filtered_lines st' = filtered_lines st @ (line # out)"
        and "list_all2 (rewritten (fnf_adjust st + removed_count (line # ls))
                                  (fnh_adjust st + removed_hit_count (line # ls)))
               (filter (\<lambda>l. \<not> removed l) (line # ls)) (line # out)"
        by (auto simp: rewritten_not_summary)
      then show ?thesis by blast
    qed
  qed
qed

section \<open>The outer loop\<close>

lemma process_line_shift:
  "process_line line (st\<lparr>output_sections := os, total_filtered := total_filtered st + d\<rparr>) =
     (fst (process_line line st),
      (snd (process_line line st))\<lparr>output_sections := os,
         total_filtered := total_filtered (snd (process_line line st)) + d\<rparr>)"
  by (auto simp: process_line_def Let_def split: option.splits sum.splits)

lemma process_lines_shift:
  "process_lines ls (st\<lparr>output_sections := os, total_filtered := total_filtered st + d\<rparr>) =
     (fst (process_lines ls st),
      (snd (process_lines ls st))\<lparr>output_sections := os,
         total_filtered := total_filtered (snd (process_lines ls st)) + d\<rparr>)"
proof (induction ls arbitrary: st)
  case Nil
  then show ?case by simp
next
  case (Cons line ls)
  obtain e st1 where 1: "process_line line st = (e, st1)"
    by (cases "process_line line st")
  show ?case
  proof (cases e)
    case None
    with 1 Cons.IH [of st1] show ?thesis
      by (simp add: process_line_shift)
  next
    case (Some err)
    with 1 show ?thesis
      by (simp add: process_line_shift)
  qed
qed

lemma section_start:
  "st\<lparr>filtered_lines := [], fnf_adjust := 0, fnh_adjust := 0\<rparr> =
     init_vars\<lparr>output_sections := output_sections st,
               total_filtered := total_filtered init_vars + total_filtered st\<rparr>"
  by (simp add: init_vars_def)

lemma process_lines_section:
  "process_lines (split_on newline seg) (st\<lparr>filtered_lines := [], fnf_adjust := 0, fnh_adjust := 0\<rparr>) =
     (fst (section_result seg),
      (snd (section_result seg))\<lparr>output_sections := output_sections st,
         total_filtered := total_filtered (snd (section_result seg)) + total_filtered st\<rparr>)"
  unfolding section_start section_result_def by (rule process_lines_shift)

lemma process_sections_success:
  assumes "process_sections segs st = (None, st')"
  shows "concat (output_sections st') = concat (output_sections st) @ concat (map segment_output segs)
         \<and> total_filtered st' = total_filtered st + sum_list (map segment_removed segs)
         \<and> (\<forall>seg\<in>set segs. \<not> startswith seg ''SF:'' \<and> py_strip seg \<noteq> []
               \<longrightarrow> fst (section_result seg) = None)"
  using assms
proof (induction segs arbitrary: st)
  case Nil
  then show ?case by simp
next
  case (Cons seg segs)
  show ?case
  proof (cases "startswith seg ''SF:''")
    case True
    with Cons.prems
    have "process_sections segs (st\<lparr>output_sections := output_sections st @ [seg]\<rparr>) = (None, st')"
      by simp
    from Cons.IH [OF this] True show ?thesis
      by (simp add: segment_output_def segment_removed_def)
  next
    case marker: False
    show ?thesis
    proof (cases "py_strip seg = []")
      case True
      with marker Cons.prems have "process_sections segs st = (None, st')" by simp
      from Cons.IH [OF this] marker True show ?thesis
        by (simp add: segment_output_def segment_removed_def)
    next
      case False
      let ?r = "snd (section_result seg)"
      let ?st1 = "?r\<lparr>output_sections := output_sections st,
                     total_filtered := total_filtered ?r + total_filtered st\<rparr>"
      from marker False Cons.prems have ok: "fst (section_result seg) = None"
        by (auto simp: process_lines_section split: option.splits)
      with marker False Cons.prems
      have "process_sections segs
              (?st1\<lparr>output_sections := output_sections ?st1 @ [join_with newline (filtered_lines ?st1)]\<rparr>)
            = (None, st')"
        by (simp add: process_lines_section)
      from Cons.IH [OF this] marker False ok show ?thesis
        by (simp add: segment_output_def segment_removed_def)
    qed
  qed
qed

lemma process_sections_failure:
  assumes "seg \<in> set segs" and "\<not> startswith seg ''SF:''" and "py_strip seg \<noteq> []"
    and "fst (section_result seg) \<noteq> None"
  shows "fst (process_sections segs st) \<noteq> None"
proof
  assume a: "fst (process_sections segs st) = None"
  obtain e st' where r: "process_sections segs st = (e, st')"
    by (cases "process_sections segs st")
  with a have "process_sections segs st = (None, st')" by simp
  from process_sections_success [OF this, THEN conjunct2, THEN conjunct2] assms(1)
  have "\<not> startswith seg ''SF:'' \<and> py_strip seg \<noteq> [] \<longrightarrow> fst (section_result seg) = None"
    by (rule bspec)
  with assms(2,3,4) show False by (simp only: simp_thms)
qed

lemma process_lines_error:
  "fst (process_lines ls st) = None \<or> fst (process_lines ls st) = Some FormatError"
proof (induction ls arbitrary: st)
  case Nil
  then show ?case by simp
next
  case (Cons line ls)
  obtain e st1 where 1: "process_line line st = (e, st1)"
    by (cases "process_line line st")
  show ?case
  proof (cases e)
    case None
    with 1 have "process_lines (line # ls) st = process_lines ls st1" by simp
    with Cons.IH [of st1] show ?thesis by simp
  next
    case (Some err)
    with 1 process_line_error [of line st] have "err = FormatError" by simp
    with 1 Some show ?thesis by simp
  qed
qed

lemma process_sections_error:
  "fst (process_sections segs st) = None \<or> fst (process_sections segs st) = Some FormatError"
proof (induction segs arbitrary: st)
  case Nil
  then show ?case by simp
next
  case (Cons seg segs)
  let ?st0 = "st\<lparr>filtered_lines := [], fnf_adjust := 0, fnh_adjust := 0\<rparr>"
  obtain e st1 where 1: "process_lines (split_on newline seg) ?st0 = (e, st1)"
    by (cases "process_lines (split_on newline seg) ?st0")
  from process_lines_error [of "split_on newline seg" ?st0] 1
  have "e = None \<or> e = Some FormatError" by simp
  with 1 Cons.IH show ?case
    by (cases e) (auto simp del: process_lines.simps)
qed

lemma filter_text_success:
  assumes "filter_text content = (None, out, n)"
  shows "out = concat (map segment_output (re_split_sf content))
         \<and> n = sum_list (map segment_removed (re_split_sf content))
         \<and> (\<forall>seg\<in>set (re_split_sf content). \<not> startswith seg ''SF:'' \<and> py_strip seg \<noteq> []
               \<longrightarrow> fst (section_result seg) = None)"
proof -
  obtain st' where "process_sections (re_split_sf content) init_vars = (None, st')"
    and "out = concat (output_sections st')" and "n = total_filtered st'"
    using assms by (auto simp: filter_text_def split: prod.splits)
  with process_sections_success [of "re_split_sf content" init_vars st'] show ?thesis
    by (simp add: init_vars_def)
qed

lemma filter_text_error:
  "fst (filter_text content) = None \<or> fst (filter_text content) = Some FormatError"
  using process_sections_error [of "re_split_sf content" init_vars]
  by (auto simp: filter_text_def split: prod.splits)

section \<open>Lines that are rewritten and lines that pass through\<close>

lemma rewritten_summary: "is_summary l \<Longrightarrow> rewritten a h l l' \<Longrightarrow> is_summary l'"
  by (auto simp: rewritten_def is_summary_def render_count_Inr startswith_iff split: if_splits)



lemma rewritten_other:
  assumes "rewritten a h l l'"
  shows "is_other l' \<longleftrightarrow> is_other l" and "is_other l \<Longrightarrow> l' = l"
proof -
  show o: "is_other l \<Longrightarrow> l' = l"
    using assms by (simp add: rewritten_not_summary is_other_def)
  show "is_other l' \<longleftrightarrow> is_other l"
  proof (cases "is_summary l")
    case True
    from rewritten_summary [OF True assms] have "is_summary l'" .
    with True show ?thesis by (simp add: is_other_def)
  next
    case False
    with assms show ?thesis by (simp add: rewritten_not_summary)
  qed
qed

lemma emitted_other:
  "list_all2 (\<lambda>l l'. \<exists>a h. rewritten a h l l') xs ys \<Longrightarrow> filter is_other ys = filter is_other xs"
proof (induction rule: list_all2_induct)
  case Nil
  then show ?case by simp
next
  case (Cons x xs y ys)
  from Cons.hyps(1) obtain a h where "rewritten a h x y" by blast
  from rewritten_other [OF this] Cons.IH show ?case by auto
qed

lemma filter_other_not_removed:
  "filter is_other (filter (\<lambda>l. \<not> removed l) ls) = filter is_other ls"
  by (induction ls) (auto simp: is_other_def removed_def)

lemma section_passthrough:
  assumes "fst (section_result seg) = None"
  shows "filter is_other (filtered_lines (snd (section_result seg)))
           = filter is_other (split_on newline seg)"
proof -
  from assms obtain st' where r: "process_lines (split_on newline seg) init_vars = (None, st')"
    unfolding section_result_def by (cases "process_lines (split_on newline seg) init_vars") simp
  from process_lines_emitted [OF r] obtain ls' where "filtered_lines st' = ls'"
    and "list_all2 (\<lambda>l l'. \<exists>a h. rewritten a h l l')
           (filter (\<lambda>l. \<not> removed l) (split_on newline seg)) ls'"
    by (auto simp: init_vars_def)
  with emitted_other [of "filter (\<lambda>l. \<not> removed l) (split_on newline seg)" ls'] r
  show ?thesis
    unfolding filter_other_not_removed by (simp add: section_result_def)
qed

section \<open>Failures\<close>

lemma py_strip_Nil: "py_strip s = [] \<longleftrightarrow> (\<forall>c\<in>set s. py_isspace c)"
proof
  assume "py_strip s = []"
  then have "dropWhile py_isspace (rev (dropWhile py_isspace s)) = []"
    by (simp add: py_strip_def)
  then have all: "\<forall>c\<in>set (dropWhile py_isspace s). py_isspace c"
    by (simp add: dropWhile_eq_Nil_conv)
  have "dropWhile py_isspace s = []"
  proof (rule ccontr)
    assume n: "dropWhile py_isspace s \<noteq> []"
    then have "\<not> py_isspace (hd (dropWhile py_isspace s))" by (rule hd_dropWhile)
    moreover from n have "hd (dropWhile py_isspace s) \<in> set (dropWhile py_isspace s)" by simp
    ultimately show False using all by blast
  qed
  then show "\<forall>c\<in>set s. py_isspace c" by (simp add: dropWhile_eq_Nil_conv)
next
  assume "\<forall>c\<in>set s. py_isspace c"
  then have "dropWhile py_isspace s = []" by (simp add: dropWhile_eq_Nil_conv)
  then have "dropWhile py_isspace (rev (dropWhile py_isspace s)) = []"
    by (simp only: rev.simps dropWhile.simps)
  then show "py_strip s = []"
    by (simp only: py_strip_def rev.simps)
qed

lemma record_segment_not_blank:
  assumes "line \<in> set (split_on newline seg)" and "startswith line (CHR ''F'' # p)"
  shows "py_strip seg \<noteq> []"
proof -
  from assms(2) have "CHR ''F'' \<in> set line" by (auto simp: startswith_iff)
  with split_on_fields [OF assms(1)] have "CHR ''F'' \<in> set seg" by blast
  moreover have "\<not> py_isspace CHR ''F''" by (simp add: py_isspace_def)
  ultimately show ?thesis by (auto simp: py_strip_Nil)
qed

lemma process_lines_failure:
  assumes "line \<in> set ls" and "\<And>st. fst (process_line line st) \<noteq> None"
  shows "fst (process_lines ls st) \<noteq> None"
  using assms(1)
proof (induction ls arbitrary: st)
  case Nil
  then show ?case by simp
next
  case (Cons l ls)
  obtain e st1 where 1: "process_line l st = (e, st1)"
    by (cases "process_line l st")
  show ?case
  proof (cases e)
    case (Some err)
    with 1 show ?thesis by simp
  next
    case None
    with 1 assms(2) [of st] have "l \<noteq> line" by auto
    with Cons.prems have "line \<in> set ls" by simp
    from Cons.IH [OF this, of st1] 1 None show ?thesis by simp
  qed
qed

lemma filter_text_failure:
  assumes "seg \<in> set (re_split_sf content)" and "\<not> startswith seg ''SF:''"
    and "line \<in> set (split_on newline seg)" and "startswith line (CHR ''F'' # p)"
    and "\<And>st. fst (process_line line st) \<noteq> None"
  shows "fst (filter_text content) = Some FormatError"
proof -
  have "fst (section_result seg) \<noteq> None"
    unfolding section_result_def using assms(3,5) by (rule process_lines_failure)
  with assms(1,2) record_segment_not_blank [OF assms(3,4)]
  have "fst (process_sections (re_split_sf content) init_vars) \<noteq> None"
    by (rule process_sections_failure)
  then have "fst (filter_text content) \<noteq> None"
    by (cases "process_sections (re_split_sf content) init_vars") (simp add: filter_text_def)
  with filter_text_error [of content] show ?thesis by simp
qed

lemma filter_lcov_failure:
  assumes "fst (filter_text content) = Some e" and "files w input_file = Some content"
  shows "filter_lcov input_file output_file w = (Some e, w)"
  using assms by (cases "filter_text content") (simp add: filter_lcov_def)

lemma hd_split_on: "hd (split_on sep s) = takeWhile (\<lambda>c. c \<noteq> sep) s"
  by (induction s) (auto split: list.splits)

lemma summary_field:
  assumes "is_summary line"
  shows "second (split_on CHR '':'' line) = Inr (takeWhile (\<lambda>c. c \<noteq> CHR '':'') (drop 4 line))"
proof -
  have *: "second (split_on CHR '':'' (p @ CHR '':'' # r)) = Inr (takeWhile (\<lambda>c. c \<noteq> CHR '':'') r)"
    if "CHR '':'' \<notin> set p" for p r
  proof -
    have "split_on CHR '':'' (p @ CHR '':'' # r) = p # split_on CHR '':'' r"
      using that by (rule split_on_append_sep)
    moreover obtain x xs where x: "split_on CHR '':'' r = x # xs"
      by (cases "split_on CHR '':'' r") auto
    moreover from x hd_split_on [of "CHR '':''" r] have "x = takeWhile (\<lambda>c. c \<noteq> CHR '':'') r"
      by simp
    ultimately show ?thesis by (simp add: second_def)
  qed
  from assms obtain r where "line = ''FNF'' @ CHR '':'' # r \<or> line = ''FNH'' @ CHR '':'' # r"
    by (auto simp: is_summary_def startswith_iff)
  then show ?thesis
    using * [of "''FNF''" r] * [of "''FNH''" r] by auto
qed

lemma count_field_eq:
  assumes "is_summary line"
  shows "count_field line =
           (case py_int (takeWhile (\<lambda>c. c \<noteq> CHR '':'') (drop 4 line)) of
              None \<Rightarrow> Inl FormatError | Some n \<Rightarrow> Inr n)"
  by (simp add: count_field_def summary_field [OF assms])

section \<open>The partition\<close>

lemma next_marker_None: "next_marker s = None \<longleftrightarrow> \<not> has_match s"
  by (induction s) (auto split: option.splits)

lemma startswith_Cons_append:
  assumes "startswith (c # pre) ''SF:''"
  shows "startswith (c # pre @ r) ''SF:''"
proof -
  from assms obtain t where "c # pre = ''SF:'' @ t" by (auto simp: startswith_iff)
  then have "c # pre @ r = ''SF:'' @ t @ r" by simp
  then show ?thesis unfolding startswith_iff by blast
qed

lemma next_marker_Some:
  assumes "next_marker s = Some (pre, m, rest)"
  shows "s = pre @ m @ rest \<and> is_marker m \<and> \<not> has_sf pre"
  using assms
proof (induction s arbitrary: pre)
  case Nil
  then show ?case by simp
next
  case (Cons c cs)
  let ?P = "\<lambda>x. x \<noteq> newline"
  show ?case
  proof (cases "startswith (c # cs) ''SF:'' \<and> newline \<in> set cs")
    case True
    with Cons.prems have pre: "pre = []" and m: "m = takeWhile ?P (c # cs) @ [newline]"
      and rest: "rest = tl (dropWhile ?P (c # cs))"
      by simp_all
    from True have "c \<noteq> newline" by (auto simp: startswith_iff newline_def)
    with True have "dropWhile ?P (c # cs) \<noteq> []" by auto
    then have hd: "hd (dropWhile ?P (c # cs)) = newline"
      using hd_dropWhile [of ?P "c # cs"] by blast
    with \<open>dropWhile ?P (c # cs) \<noteq> []\<close>
    have "dropWhile ?P (c # cs) = newline # rest"
      unfolding rest by (cases "dropWhile ?P (c # cs)") auto
    then have "takeWhile ?P (c # cs) @ newline # rest = c # cs"
      using takeWhile_dropWhile_id [of ?P "c # cs"] by simp
    then have s: "c # cs = pre @ m @ rest" by (simp add: pre m)
    from True obtain t where t: "c # cs = ''SF:'' @ t" by (auto simp: startswith_iff)
    have tw: "takeWhile ?P (c # cs) = ''SF:'' @ takeWhile ?P t"
      unfolding t by (simp add: newline_def)
    have "m = ''SF:'' @ (takeWhile ?P t @ [newline])"
      unfolding m tw by simp
    then have "startswith m ''SF:''"
      unfolding startswith_iff by blast
    moreover have "newline \<notin> set (takeWhile ?P (c # cs))"
      by (auto dest: set_takeWhileD)
    ultimately have "is_marker m"
      by (simp add: is_marker_def m)
    with s pre show ?thesis by simp
  next
    case False
    with Cons.prems obtain pre' where n: "next_marker cs = Some (pre', m, rest)"
      and pre: "pre = c # pre'"
      by (auto split: option.splits)
    from Cons.IH [OF n] have s: "cs = pre' @ m @ rest" and mk: "is_marker m"
      and sf: "\<not> has_sf pre'" by simp_all
    from mk have "m \<noteq> []" by (auto simp: is_marker_def startswith_iff)
    with mk have "newline \<in> set m"
      by (metis is_marker_def last_in_set)
    with s have nl: "newline \<in> set cs" by simp
    have "\<not> startswith (c # pre') ''SF:''"
    proof
      assume "startswith (c # pre') ''SF:''"
      then have "startswith (c # pre' @ m @ rest) ''SF:''" by (rule startswith_Cons_append)
      with s nl False show False by simp
    qed
    with sf s mk pre show ?thesis by simp
  qed
qed

lemma re_split_sf_None:
  assumes "\<not> has_match s"
  shows "re_split_sf s = [s]"
proof -
  from assms have "next_marker s = None" by (simp add: next_marker_None)
  then show ?thesis by (subst re_split_sf.simps) simp
qed

lemma re_split_sf_Some:
  "next_marker s = Some (pre, m, rest) \<Longrightarrow> re_split_sf s = pre # m # re_split_sf rest"
  by (subst re_split_sf.simps) simp

lemma re_split_sf_shape: "concat (re_split_sf s) = s \<and> well_split (re_split_sf s)"
proof (induction s rule: re_split_sf.induct)
  case (1 s)
  show ?case
  proof (cases "next_marker s")
    case None
    then have "\<not> has_match s" by (simp add: next_marker_None)
    then show ?thesis by (simp add: re_split_sf_None)
  next
    case (Some x)
    obtain pre m rest where x: "x = (pre, m, rest)" by (cases x)
    with Some have n: "next_marker s = Some (pre, m, rest)" by simp
    from "1.IH" [OF Some, of pre "(m, rest)" m rest] x
    have "concat (re_split_sf rest) = rest \<and> well_split (re_split_sf rest)" by simp
    moreover from next_marker_Some [OF n] have "pre @ m @ rest = s" and "is_marker m"
      and "\<not> has_sf pre" by simp_all
    ultimately show ?thesis
      unfolding re_split_sf_Some [OF n] by simp
  qed
qed

lemma has_sf_startswith: "startswith s ''SF:'' \<Longrightarrow> has_sf s"
  by (cases s) (auto simp: startswith_def)

lemma startswith_before_marker:
  assumes "startswith m ''SF:''" and "startswith (c @ m @ rest) ''SF:''" and "c \<noteq> []"
  shows "startswith c ''SF:''"
proof -
  from assms(1) obtain t where m: "m = ''SF:'' @ t" by (auto simp: startswith_iff)
  from assms(3) obtain x c1 where c: "c = x # c1" by (cases c) auto
  show ?thesis
  proof (cases c1)
    case Nil
    with assms(2) c m show ?thesis by (simp add: startswith_def)
  next
    case (Cons y c2)
    show ?thesis
    proof (cases c2)
      case Nil
      with assms(2) c m Cons show ?thesis by (simp add: startswith_def)
    next
      case (Cons z c3)
      with assms(2) c \<open>c1 = y # c2\<close> show ?thesis by (simp add: startswith_def)
    qed
  qed
qed

lemma marker_split:
  assumes "is_marker m"
  shows "m = butlast m @ [newline]" and "newline \<in> set (tl m)" and "m \<noteq> []"
proof -
  from assms obtain t where t: "m = ''SF:'' @ t" by (auto simp: is_marker_def startswith_iff)
  then show ne: "m \<noteq> []" by auto
  from assms have "last m = newline" by (simp add: is_marker_def)
  with ne show b: "m = butlast m @ [newline]" by (metis append_butlast_last_id)
  have "last m \<in> set (tl m)"
  proof (cases t)
    case Nil
    with t \<open>last m = newline\<close> show ?thesis by (simp add: newline_def)
  next
    case (Cons a list)
    with t show ?thesis by simp
  qed
  with \<open>last m = newline\<close> show "newline \<in> set (tl m)" by simp
qed

lemma next_marker_found:
  assumes "\<not> has_sf c" and "is_marker m"
  shows "next_marker (c @ m @ rest) = Some (c, m, rest)"
  using assms(1)
proof (induction c)
  case Nil
  let ?P = "\<lambda>x. x \<noteq> newline"
  note ms = marker_split [OF assms(2)]
  obtain b where b: "m = b @ [newline]" and free: "newline \<notin> set b"
    using ms(1) assms(2) by (auto simp: is_marker_def)
  obtain x xs where m: "m = x # xs" using ms(3) by (cases m) auto
  from assms(2) have sw: "startswith ((x # xs) @ rest) ''SF:''"
    unfolding m [symmetric] by (auto simp: is_marker_def startswith_iff)
  from ms(2) m have nl: "newline \<in> set (xs @ rest)" by simp
  have eq: "m @ rest = b @ newline # rest" by (simp add: b)
  have tw: "takeWhile ?P (b @ newline # rest) = b"
    using free by (auto simp: takeWhile_tail)
  have dw: "dropWhile ?P (b @ newline # rest) = newline # rest"
    using free by (induction b) auto
  have "next_marker ((x # xs) @ rest) = Some ([], takeWhile ?P ((x # xs) @ rest) @ [newline],
          tl (dropWhile ?P ((x # xs) @ rest)))"
    using sw nl by simp
  then have "next_marker (m @ rest) = Some ([], b @ [newline], rest)"
    unfolding m [symmetric] eq tw dw by simp
  with b show ?case by simp
next
  case (Cons x c)
  then have nsw: "\<not> startswith (x # c) ''SF:''" and sf: "\<not> has_sf c" by simp_all
  have "\<not> startswith ((x # c) @ m @ rest) ''SF:''"
  proof
    assume "startswith ((x # c) @ m @ rest) ''SF:''"
    with assms(2) have "startswith (x # c) ''SF:''"
      using startswith_before_marker [of m "x # c" rest] by (simp add: is_marker_def)
    with nsw show False by simp
  qed
  with Cons.IH [OF sf] show ?case by simp
qed

lemma well_split_unique: "well_split segs \<Longrightarrow> re_split_sf (concat segs) = segs"
proof (induction segs rule: well_split.induct)
  case 1
  then show ?case by simp
next
  case (2 c)
  then show ?case by (simp add: re_split_sf_None)
next
  case (3 c m segs)
  then have "next_marker (c @ m @ concat segs) = Some (c, m, concat segs)"
    by (simp add: next_marker_found)
  from re_split_sf_Some [OF this] 3 show ?case by simp
qed

lemma well_split_not_Nil: "well_split segs \<Longrightarrow> segs \<noteq> []"
  by auto

lemma well_split_classified:
  "well_split segs \<Longrightarrow> seg \<in> set segs \<Longrightarrow> startswith seg ''SF:'' \<Longrightarrow>
     is_marker seg \<or> (seg = last segs \<and> newline \<notin> set seg)"
proof (induction segs rule: well_split.induct)
  case 1
  then show ?case by simp
next
  case (2 c)
  then have c: "seg = c" and nm: "\<not> has_match c" by simp_all
  from "2.prems"(3) c obtain t where t: "c = CHR ''S'' # t"
    by (auto simp: startswith_iff)
  with nm "2.prems"(3) c have "newline \<notin> set t" by auto
  with t c show ?case by (simp add: newline_def)
next
  case (3 c m segs)
  from "3.prems"(1) have "\<not> has_sf c" and mk: "is_marker m" and ws: "well_split segs"
    by simp_all
  with "3.prems"(3) has_sf_startswith have "seg \<noteq> c" by blast
  with "3.prems"(2) have "seg = m \<or> seg \<in> set segs" by auto
  then show ?case
  proof
    assume "seg = m"
    with mk show ?thesis by simp
  next
    assume "seg \<in> set segs"
    from "3.IH" [OF ws this "3.prems"(3)] well_split_not_Nil [OF ws] show ?thesis by auto
  qed
qed

section \<open>Rendering and parsing integers\<close>

declare nat_digits.simps [simp del]

lemma digit_char_digit: "d < 10 \<Longrightarrow> is_digit (digit_char d) \<and> digit_val (digit_char d) = d"
  by (simp add: is_digit_def digit_val_def digit_char_def)

lemma digit_not_special:
  assumes "is_digit c"
  shows "\<not> int_isspace c" and "\<not> py_isspace c" and "c \<noteq> CHR ''-''" and "c \<noteq> CHR ''+''"
    and "c \<noteq> CHR '':''" and "c \<noteq> newline" and "c \<noteq> CHR ''S''" and "c \<noteq> CHR ''_''"
  using assms
  by (auto simp: is_digit_def int_isspace_def py_isspace_def newline_def)

lemma parse_digits_all:
  "\<forall>c\<in>set ds. is_digit c \<Longrightarrow>
     parse_digits acc ds = Some (foldl (\<lambda>a c. a * 10 + digit_val c) acc ds)"
  by (induction ds arbitrary: acc) auto

lemma nat_digits_digits:
  "(\<forall>c\<in>set (nat_digits n). is_digit c) \<and> nat_digits n \<noteq> []
   \<and> foldl (\<lambda>a c. a * 10 + digit_val c) 0 (nat_digits n) = n"
proof (induction n rule: nat_digits.induct)
  case (1 n)
  show ?case
  proof (cases "n < 10")
    case True
    then have "nat_digits n = [digit_char n]" by (subst nat_digits.simps) simp
    with digit_char_digit [OF True] show ?thesis by simp
  next
    case False
    then have eq: "nat_digits n = nat_digits (n div 10) @ [digit_char (n mod 10)]"
      by (subst nat_digits.simps) simp
    have "n mod 10 < 10" by simp
    from digit_char_digit [OF this] "1.IH" [OF False] show ?thesis
      unfolding eq by simp
  qed
qed

lemma parse_nat_nat_digits: "parse_nat (nat_digits n) = Some n"
proof -
  from nat_digits_digits [of n] obtain d ds where eq: "nat_digits n = d # ds"
    by (cases "nat_digits n") auto
  with nat_digits_digits [of n] have d: "is_digit d" and ds: "\<forall>c\<in>set ds. is_digit c"
    and v: "foldl (\<lambda>a c. a * 10 + digit_val c) (digit_val d) ds = n"
    by simp_all
  from parse_digits_all [OF ds, of "digit_val d"] v d show ?thesis
    by (simp add: parse_nat_def eq)
qed

lemma parse_limited_nat_digits:
  assumes "length (nat_digits n) \<le> int_max_str_digits"
  shows "parse_limited (nat_digits n) = Some n"
proof -
  from nat_digits_digits [of n] have "filter is_digit (nat_digits n) = nat_digits n"
    by (simp add: filter_id_conv)
  with assms show ?thesis
    by (simp add: parse_limited_def parse_nat_nat_digits)
qed

lemma strip_id:
  assumes "s \<noteq> []" and "\<not> P (hd s)" and "\<not> P (last s)"
  shows "rev (dropWhile P (rev (dropWhile P s))) = s"
proof -
  from assms(1,2) have 1: "dropWhile P s = s" by (cases s) auto
  from assms(1,3) have "dropWhile P (rev s) = rev s"
    by (cases "rev s") (auto simp: last_rev [symmetric] simp del: last_rev)
  with 1 show ?thesis by simp
qed

lemma py_str_Some:
  "py_str i = Some s \<longleftrightarrow>
     length (nat_digits (nat \<bar>i\<bar>)) \<le> int_max_str_digits
     \<and> s = (if i < 0 then CHR ''-'' # nat_digits (nat \<bar>i\<bar>) else nat_digits (nat \<bar>i\<bar>))"
  by (auto simp: py_str_def Let_def)

lemma py_str_chars: "py_str i = Some s \<Longrightarrow> c \<in> set s \<Longrightarrow> is_digit c \<or> c = CHR ''-''"
  using nat_digits_digits by (auto simp: py_str_Some split: if_splits)

lemma py_str_0: "py_str 0 = Some ''0''"
proof -
  have "nat_digits 0 = ''0''" by code_simp
  then show ?thesis by (simp add: py_str_def int_max_str_digits_def)
qed


lemma py_int_py_str:
  assumes "py_str i = Some s"
  shows "py_int s = Some i"
proof (cases "i < 0")
  case False
  from assms False have s: "s = nat_digits (nat i)"
    and len: "length (nat_digits (nat i)) \<le> int_max_str_digits"
    by (simp_all add: py_str_Some)
  from nat_digits_digits [of "nat i"] obtain d ds where eq: "nat_digits (nat i) = d # ds"
    by (cases "nat_digits (nat i)") auto
  with nat_digits_digits [of "nat i"] have d: "is_digit d"
    and l: "is_digit (last (d # ds))"
    by (simp, metis eq last_in_set)
  have "rev (dropWhile int_isspace (rev (dropWhile int_isspace (d # ds)))) = d # ds"
    using digit_not_special(1) [OF d] digit_not_special(1) [OF l]
    by (intro strip_id) simp_all
  moreover from parse_limited_nat_digits [OF len] have "parse_limited (d # ds) = Some (nat i)"
    by (simp add: eq)
  ultimately show ?thesis
    using digit_not_special(3,4) [OF d] False
    by (simp add: py_int_def s eq)
next
  case True
  let ?ds = "nat_digits (nat (- i))"
  let ?s = "CHR ''-'' # ?ds"
  from assms True have s: "s = ?s" and len: "length ?ds \<le> int_max_str_digits"
    by (simp_all add: py_str_Some)
  from nat_digits_digits [of "nat (- i)"] have "is_digit (last ?ds)"
    by (metis last_in_set)
  with nat_digits_digits [of "nat (- i)"] have l: "is_digit (last ?s)" by simp
  have "\<not> int_isspace CHR ''-''" by (simp add: int_isspace_def)
  then have "rev (dropWhile int_isspace (rev (dropWhile int_isspace ?s))) = ?s"
    using digit_not_special(1) [OF l] by (intro strip_id) simp_all
  with parse_limited_nat_digits [OF len] True show ?thesis
    by (simp add: py_int_def s)
qed

lemma count_field_canonical:
  assumes "p = ''FNF'' \<or> p = ''FNH''" and "py_str i = Some s"
  shows "count_field (p @ CHR '':'' # s) = Inr i"
proof -
  have "CHR '':'' \<notin> set s"
    using py_str_chars [OF assms(2), of "CHR '':''"] digit_not_special(5) [of "CHR '':''"] by auto
  then have "split_on CHR '':'' s = [s]" by (rule split_on_no_sep)
  moreover from assms(1) have "CHR '':'' \<notin> set p" by auto
  then have "split_on CHR '':'' (p @ CHR '':'' # s) = p # split_on CHR '':'' s"
    by (rule split_on_append_sep)
  ultimately show ?thesis
    by (simp add: count_field_def second_def py_int_py_str [OF assms(2)])
qed






text \<open>The two refusals of the interpreter: too many digits to parse, too many to render.\<close>

lemma py_int_limit:
  assumes "\<forall>c\<in>set s. is_digit c" and "int_max_str_digits < length s"
  shows "py_int s = None"
proof -
  from assms(2) obtain d ds where s: "s = d # ds" by (cases s) auto
  with assms(1) have d: "is_digit d" and l: "is_digit (last (d # ds))"
    by (simp, metis last_in_set list.distinct(1))
  have "rev (dropWhile int_isspace (rev (dropWhile int_isspace (d # ds)))) = d # ds"
    using digit_not_special(1) [OF d] digit_not_special(1) [OF l]
    by (intro strip_id) simp_all
  moreover from assms(1) have "filter is_digit s = s" by (simp add: filter_id_conv)
  with assms(2) have "parse_limited (d # ds) = None" by (simp add: parse_limited_def s)
  ultimately show ?thesis
    using digit_not_special(3,4) [OF d] by (simp add: py_int_def s)
qed

lemma nat_digits_long: "10 ^ k \<le> n \<Longrightarrow> k < length (nat_digits n)"
proof (induction n arbitrary: k rule: nat_digits.induct)
  case (1 n)
  show ?case
  proof (cases "n < 10")
    case True
    then have eq: "nat_digits n = [digit_char n]" by (subst nat_digits.simps) simp
    have "k = 0"
    proof (rule ccontr)
      assume "k \<noteq> 0"
      then obtain j where "k = Suc j" by (cases k) auto
      with "1.prems" have "10 \<le> n"
        by (metis One_nat_def le_trans one_le_numeral one_le_power power_Suc mult.right_neutral
            mult_le_mono2)
      with True show False by simp
    qed
    with eq show ?thesis by simp
  next
    case False
    then have eq: "nat_digits n = nat_digits (n div 10) @ [digit_char (n mod 10)]"
      by (subst nat_digits.simps) simp
    show ?thesis
    proof (cases k)
      case 0
      then show ?thesis by (simp add: eq)
    next
      case (Suc j)
      with "1.prems" have "10 * 10 ^ j \<le> n" by simp
      then have "10 ^ j \<le> n div 10" by (simp add: less_eq_div_iff_mult_less_eq mult.commute)
      from "1.IH" [OF False this] Suc show ?thesis by (simp add: eq)
    qed
  qed
qed

lemma py_str_limit: "10 ^ int_max_str_digits \<le> nat \<bar>i\<bar> \<Longrightarrow> py_str i = None"
  using nat_digits_long [of int_max_str_digits "nat \<bar>i\<bar>"] by (simp add: py_str_def Let_def)

section \<open>Filtering a text that has no record to remove\<close>

lemma fixpoint_line:
  assumes "rewritten 0 0 l l'" and "\<not> removed l" and "fnf_adjust st = 0" and "fnh_adjust st = 0"
  shows "process_line l' st = (None, st\<lparr>filtered_lines := filtered_lines st @ [l']\<rparr>)"
proof (cases l rule: line_cases)
  case removed
  with assms(2) show ?thesis by simp
next
  case kept
  then have "\<not> is_summary l"
    using summary_not_record [of l] by (auto simp: is_fn_record_def is_summary_def)
  with assms(1) have "l' = l" by (simp add: rewritten_not_summary)
  with kept show ?thesis by (simp add: process_line_kept)
next
  case fnf
  with assms(1) obtain n s where s: "py_str (n - 0) = Some s"
    and l': "l' = ''FNF'' @ CHR '':'' # s"
    by (auto simp: rewritten_def render_count_Inr)
  from l' have sw: "startswith l' ''FNF:''" by (simp add: startswith_def)
  from s have "count_field (''FNF'' @ CHR '':'' # s) = Inr n"
    by (intro count_field_canonical) simp_all
  with s l' have "render_count ''FNF:'' l' 0 = Inr l'"
    by (simp add: render_count_def)
  with sw assms(3) show ?thesis by (simp add: process_line_fnf)
next
  case fnh
  with assms(1) fnh_not_fnf [OF fnh] obtain n s where s: "py_str (n - 0) = Some s"
    and l': "l' = ''FNH'' @ CHR '':'' # s"
    by (auto simp: rewritten_def render_count_Inr)
  from l' have sw: "startswith l' ''FNH:''" by (simp add: startswith_def)
  from s have "count_field (''FNH'' @ CHR '':'' # s) = Inr n"
    by (intro count_field_canonical) simp_all
  with s l' have "render_count ''FNH:'' l' 0 = Inr l'"
    by (simp add: render_count_def)
  with sw assms(4) show ?thesis by (simp add: process_line_fnh)
next
  case other
  then have "\<not> is_summary l" by (simp add: is_other_def)
  with assms(1) have "l' = l" by (simp add: rewritten_not_summary)
  with other show ?thesis by (simp add: process_line_other)
qed

lemma fixpoint_lines:
  assumes "list_all2 (rewritten 0 0) ls ls'" and "\<forall>l\<in>set ls. \<not> removed l"
    and "fnf_adjust st = 0" and "fnh_adjust st = 0"
  shows "process_lines ls' st = (None, st\<lparr>filtered_lines := filtered_lines st @ ls'\<rparr>)"
  using assms
proof (induction arbitrary: st rule: list_all2_induct)
  case Nil
  then show ?case by simp
next
  case (Cons l ls l' ls')
  from Cons.prems have nr: "\<not> removed l" and rest: "\<forall>l\<in>set ls. \<not> removed l" by simp_all
  let ?st1 = "st\<lparr>filtered_lines := filtered_lines st @ [l']\<rparr>"
  from fixpoint_line [OF Cons.hyps(1) nr Cons.prems(2,3)]
  have 1: "process_line l' st = (None, ?st1)" .
  from Cons.prems(2,3) have "fnf_adjust ?st1 = 0" and "fnh_adjust ?st1 = 0" by simp_all
  from Cons.IH [OF rest this] 1 show ?case by simp
qed

lemma no_removed:
  assumes "\<forall>l\<in>set ls. \<not> removed l"
  shows "removed_count ls = 0" and "removed_hit_count ls = 0"
    and "filter (\<lambda>l. \<not> removed l) ls = ls"
    and "\<forall>l\<in>set (dropWhile (\<lambda>l. \<not> is_summary l) ls). \<not> removed l"
proof -
  from assms have "filter removed ls = []" and "filter removed_hit ls = []"
    by (auto simp: filter_empty_conv dest: removed_hit_removed)
  then show "removed_count ls = 0" and "removed_hit_count ls = 0"
    by (simp_all add: removed_count_def removed_hit_count_def)
  from assms show "filter (\<lambda>l. \<not> removed l) ls = ls" by (simp add: filter_id_conv)
  from assms show "\<forall>l\<in>set (dropWhile (\<lambda>l. \<not> is_summary l) ls). \<not> removed l"
    by (auto dest: set_dropWhileD)
qed

lemma section_lines:
  assumes "fst (section_result seg) = None" and "\<forall>l\<in>set (split_on newline seg). \<not> removed l"
  shows "list_all2 (rewritten 0 0) (split_on newline seg) (filtered_lines (snd (section_result seg)))"
    and "total_filtered (snd (section_result seg)) = 0"
proof -
  from assms(1) obtain st' where r: "process_lines (split_on newline seg) init_vars = (None, st')"
    unfolding section_result_def by (cases "process_lines (split_on newline seg) init_vars") simp
  note z = no_removed [OF assms(2)]
  from process_lines_ordered [OF r z(4)] z(1,2,3) r
  show "list_all2 (rewritten 0 0) (split_on newline seg) (filtered_lines (snd (section_result seg)))"
    by (auto simp: init_vars_def section_result_def)
  from process_lines_counters [OF r] z(1) r
  show "total_filtered (snd (section_result seg)) = 0"
    by (simp add: init_vars_def section_result_def)
qed

lemma has_sf_S: "has_sf s \<Longrightarrow> CHR ''S'' \<in> set s"
  by (induction s) (auto simp: startswith_iff)

lemma canonical_chars:
  assumes "p = ''FNF:'' \<or> p = ''FNH:''" and "py_str n = Some s"
  shows "\<not> has_sf (p @ s)" and "newline \<notin> set (p @ s)"
    and "\<exists>c\<in>set (p @ s). \<not> py_isspace c"
proof -
  have "c \<noteq> CHR ''S'' \<and> c \<noteq> newline" if "c \<in> set s" for c
    using py_str_chars [OF assms(2) that] digit_not_special(6,7) [of c] by (auto simp: newline_def)
  with assms(1) have "CHR ''S'' \<notin> set (p @ s)" and nl: "newline \<notin> set (p @ s)"
    by (auto simp: newline_def)
  then show "\<not> has_sf (p @ s)" using has_sf_S by blast
  from nl show "newline \<notin> set (p @ s)" .
  have "\<not> py_isspace CHR ''F''" by (simp add: py_isspace_def)
  with assms(1) show "\<exists>c\<in>set (p @ s). \<not> py_isspace c" by auto
qed

lemma rewritten_cases:
  assumes "rewritten a h l l'"
  obtains (same) "l' = l"
  | (canonical) p n s where "p = ''FNF:'' \<or> p = ''FNH:''" "py_str n = Some s" "l' = p @ s"
proof (cases "startswith l ''FNF:''")
  case True
  with assms obtain n s where "py_str (n - a) = Some s" and "l' = ''FNF:'' @ s"
    by (auto simp: rewritten_def render_count_Inr)
  then show ?thesis by (intro canonical [of "''FNF:''" "n - a" s]) simp_all
next
  case f: False
  show ?thesis
  proof (cases "startswith l ''FNH:''")
    case True
    with f assms obtain n s where "py_str (n - h) = Some s" and "l' = ''FNH:'' @ s"
      by (auto simp: rewritten_def render_count_Inr)
    then show ?thesis by (intro canonical [of "''FNH:''" "n - h" s]) simp_all
  next
    case False
    with f assms have "l' = l" by (simp add: rewritten_def)
    then show ?thesis by (rule same)
  qed
qed

lemma rewritten_keeps:
  assumes "rewritten a h l l'"
  shows "has_sf l' \<Longrightarrow> has_sf l" and "newline \<notin> set l \<Longrightarrow> newline \<notin> set l'"
    and "\<exists>c\<in>set l. \<not> py_isspace c \<Longrightarrow> \<exists>c\<in>set l'. \<not> py_isspace c"
proof -
  show "has_sf l' \<Longrightarrow> has_sf l"
    using assms canonical_chars(1) by (cases rule: rewritten_cases) auto
  show "newline \<notin> set l \<Longrightarrow> newline \<notin> set l'"
    using assms canonical_chars(2) by (cases rule: rewritten_cases) auto
  show "\<exists>c\<in>set l. \<not> py_isspace c \<Longrightarrow> \<exists>c\<in>set l'. \<not> py_isspace c"
    using assms canonical_chars(3) by (cases rule: rewritten_cases) auto
qed

lemma set_join: "l \<in> set ls \<Longrightarrow> set l \<subseteq> set (join_with sep ls)"
  by (induction sep ls rule: join_with.induct) auto

lemma set_split:
  "c \<in> set s \<Longrightarrow> c \<noteq> sep \<Longrightarrow> \<exists>l\<in>set (split_on sep s). c \<in> set l"
proof (induction s)
  case Nil
  then show ?case by simp
next
  case (Cons x xs)
  obtain w ws where w: "split_on sep xs = w # ws"
    by (cases "split_on sep xs") auto
  show ?case
  proof (cases "c \<in> set xs")
    case True
    from Cons.IH [OF this Cons.prems(2)] obtain l where "l \<in> set (w # ws)" and "c \<in> set l"
      using w by auto
    then show ?thesis using w by (cases "x = sep") auto
  next
    case False
    with Cons.prems have "c = x" and "x \<noteq> sep" by auto
    then show ?thesis using w by auto
  qed
qed

lemma startswith_before_newline:
  "startswith (a @ newline # b) ''SF:'' \<longleftrightarrow> startswith a ''SF:''"
proof (cases a)
  case Nil
  then show ?thesis by (simp add: startswith_def newline_def)
next
  case a: (Cons x a1)
  show ?thesis
  proof (cases a1)
    case Nil
    with a show ?thesis by (simp add: startswith_def newline_def)
  next
    case a1: (Cons y a2)
    show ?thesis
    proof (cases a2)
      case Nil
      with a a1 show ?thesis by (simp add: startswith_def newline_def)
    next
      case (Cons z a3)
      with a a1 show ?thesis by (simp add: startswith_def)
    qed
  qed
qed

lemma has_sf_append_newline: "has_sf (a @ newline # b) \<longleftrightarrow> has_sf a \<or> has_sf b"
proof (induction a)
  case Nil
  then show ?case by (simp add: startswith_def newline_def)
next
  case (Cons x a)
  from startswith_before_newline [of "x # a" b] Cons show ?case by auto
qed

lemma has_match_append_newline: "has_match (a @ newline # b) \<longleftrightarrow> has_sf a \<or> has_match b"
proof (induction a)
  case Nil
  then show ?case by (simp add: startswith_def newline_def)
next
  case (Cons x a)
  from startswith_before_newline [of "x # a" b] Cons show ?case by auto
qed

lemma has_match_no_newline: "newline \<notin> set s \<Longrightarrow> \<not> has_match s"
  by (induction s) auto

lemma has_sf_join: "has_sf (join_with newline ls) \<longleftrightarrow> (\<exists>l\<in>set ls. has_sf l)"
  by (induction newline ls rule: join_with.induct) (auto simp: has_sf_append_newline)

lemma has_match_join:
  "\<forall>l\<in>set ls. newline \<notin> set l \<Longrightarrow>
     has_match (join_with newline ls) \<longleftrightarrow> (\<exists>l\<in>set (butlast ls). has_sf l)"
  by (induction newline ls rule: join_with.induct)
     (auto simp: has_match_append_newline has_match_no_newline)

lemma list_all2_right: "list_all2 R xs ys \<Longrightarrow> y \<in> set ys \<Longrightarrow> \<exists>x\<in>set xs. R x y"
  by (induction rule: list_all2_induct) auto

lemma list_all2_left: "list_all2 R xs ys \<Longrightarrow> x \<in> set xs \<Longrightarrow> \<exists>y\<in>set ys. R x y"
  by (induction rule: list_all2_induct) auto

lemma list_all2_butlast: "list_all2 R xs ys \<Longrightarrow> list_all2 R (butlast xs) (butlast ys)"
  by (induction rule: list_all2_induct) (auto dest: list_all2_lengthD)

lemma segment_fixed:
  assumes ok: "\<not> startswith seg ''SF:'' \<and> py_strip seg \<noteq> [] \<longrightarrow> fst (section_result seg) = None"
    and nr: "\<forall>l\<in>set (split_on newline seg). \<not> removed l"
  shows "segment_output (segment_output seg) = segment_output seg"
    and "segment_removed (segment_output seg) = 0"
    and "segment_removed seg = 0"
    and "\<not> startswith (segment_output seg) ''SF:'' \<and> py_strip (segment_output seg) \<noteq> []
           \<longrightarrow> fst (section_result (segment_output seg)) = None"
    and "has_sf (segment_output seg) \<longrightarrow> has_sf seg"
    and "has_match (segment_output seg) \<longrightarrow> has_match seg"
proof -
  let ?goal = "segment_output (segment_output seg) = segment_output seg
    \<and> segment_removed (segment_output seg) = 0
    \<and> segment_removed seg = 0
    \<and> (\<not> startswith (segment_output seg) ''SF:'' \<and> py_strip (segment_output seg) \<noteq> []
           \<longrightarrow> fst (section_result (segment_output seg)) = None)
    \<and> (has_sf (segment_output seg) \<longrightarrow> has_sf seg)
    \<and> (has_match (segment_output seg) \<longrightarrow> has_match seg)"
  have ?goal
  proof (cases "startswith seg ''SF:''")
    case True
    then show ?thesis by (simp add: segment_output_def segment_removed_def)
  next
    case marker: False
    show ?thesis
    proof (cases "py_strip seg = []")
      case True
      with marker have o: "segment_output seg = []" and r: "segment_removed seg = 0"
        by (simp_all add: segment_output_def segment_removed_def)
      have "py_strip [] = []" by (simp add: py_strip_def)
      moreover have "\<not> startswith [] ''SF:''" by (simp add: startswith_def)
      ultimately show ?thesis
        unfolding o using r by (simp add: segment_output_def segment_removed_def)
    next
      case False
      let ?ls = "split_on newline seg"
      let ?ls' = "filtered_lines (snd (section_result seg))"
      let ?o = "join_with newline ?ls'"
      from marker False ok have s: "fst (section_result seg) = None" by simp
      note sl = section_lines [OF s nr]
      from marker False have o: "segment_output seg = ?o"
        by (simp add: segment_output_def)
      from marker False sl(2) have r: "segment_removed seg = 0"
        by (simp add: segment_removed_def)
      have seg: "join_with newline ?ls = seg" by (rule join_split)
      have free: "\<forall>l\<in>set ?ls. newline \<notin> set l"
        using split_on_fields [of _ newline seg] by blast
      have free': "\<forall>l'\<in>set ?ls'. newline \<notin> set l'"
      proof
        fix l' assume "l' \<in> set ?ls'"
        from list_all2_right [OF sl(1) this] obtain l where "l \<in> set ?ls"
          and "rewritten 0 0 l l'" by blast
        with free rewritten_keeps(2) show "newline \<notin> set l'" by blast
      qed
      from sl(1) have "length ?ls' = length ?ls" by (simp add: list_all2_lengthD)
      then have ne: "?ls' \<noteq> []" by auto
      have lines: "split_on newline ?o = ?ls'"
        using ne free' by (rule split_join)
      have "fnf_adjust init_vars = 0" and "fnh_adjust init_vars = 0"
        by (simp_all add: init_vars_def)
      from fixpoint_lines [OF sl(1) nr this]
      have fp: "process_lines ?ls' init_vars
                  = (None, init_vars\<lparr>filtered_lines := filtered_lines init_vars @ ?ls'\<rparr>)" .
      have "section_result ?o = process_lines (split_on newline ?o) init_vars"
        by (simp only: section_result_def)
      also have "\<dots> = process_lines ?ls' init_vars"
        by (simp only: lines)
      also note fp
      also have "filtered_lines init_vars @ ?ls' = ?ls'"
        by (simp add: init_vars_def)
      finally have again: "section_result ?o = (None, init_vars\<lparr>filtered_lines := ?ls'\<rparr>)" .
      have blank: "py_strip ?o \<noteq> []"
      proof -
        from False obtain c where c: "c \<in> set seg" and sp: "\<not> py_isspace c"
          by (auto simp: py_strip_Nil)
        from sp have "c \<noteq> newline" by (auto simp: py_isspace_def newline_def)
        from set_split [OF c this] obtain l where l: "l \<in> set ?ls" and "c \<in> set l" by blast
        with sp have "\<exists>c\<in>set l. \<not> py_isspace c" by blast
        moreover from list_all2_left [OF sl(1) l] obtain l' where l': "l' \<in> set ?ls'"
          and "rewritten 0 0 l l'" by blast
        ultimately have "\<exists>c\<in>set l'. \<not> py_isspace c" using rewritten_keeps(3) by blast
        with set_join [OF l', of newline] show ?thesis by (auto simp: py_strip_Nil)
      qed
      have sf: "has_sf ?o \<longrightarrow> has_sf seg"
      proof
        assume "has_sf ?o"
        then obtain l' where l': "l' \<in> set ?ls'" and h: "has_sf l'" by (auto simp: has_sf_join)
        from list_all2_right [OF sl(1) l'] obtain l where "l \<in> set ?ls"
          and "rewritten 0 0 l l'" by blast
        with h rewritten_keeps(1) have "\<exists>l\<in>set ?ls. has_sf l" by blast
        then have "has_sf (join_with newline ?ls)" by (simp add: has_sf_join)
        then show "has_sf seg" by (simp only: seg)
      qed
      have mt: "has_match ?o \<longrightarrow> has_match seg"
      proof
        assume "has_match ?o"
        with free' obtain l' where l': "l' \<in> set (butlast ?ls')" and h: "has_sf l'"
          by (auto simp: has_match_join)
        from list_all2_right [OF list_all2_butlast [OF sl(1)] l'] obtain l
          where "l \<in> set (butlast ?ls)" and "rewritten 0 0 l l'" by blast
        with h rewritten_keeps(1) have "\<exists>l\<in>set (butlast ?ls). has_sf l" by blast
        with free have "has_match (join_with newline ?ls)" by (simp add: has_match_join)
        then show "has_match seg" by (simp only: seg)
      qed
      have "segment_output ?o = ?o" and "segment_removed ?o = 0"
        and "fst (section_result ?o) = None"
        using blank again by (simp_all add: segment_output_def segment_removed_def init_vars_def)
      with r sf mt show ?thesis unfolding o by simp
    qed
  qed
  then show "segment_output (segment_output seg) = segment_output seg"
    and "segment_removed (segment_output seg) = 0"
    and "segment_removed seg = 0"
    and "\<not> startswith (segment_output seg) ''SF:'' \<and> py_strip (segment_output seg) \<noteq> []
           \<longrightarrow> fst (section_result (segment_output seg)) = None"
    and "has_sf (segment_output seg) \<longrightarrow> has_sf seg"
    and "has_match (segment_output seg) \<longrightarrow> has_match seg"
    by simp_all
qed

lemma process_sections_ok:
  assumes "\<forall>seg\<in>set segs. \<not> startswith seg ''SF:'' \<and> py_strip seg \<noteq> []
             \<longrightarrow> fst (section_result seg) = None"
  shows "fst (process_sections segs st) = None"
  using assms
proof (induction segs arbitrary: st)
  case Nil
  then show ?case by simp
next
  case (Cons seg segs)
  then have rest: "\<forall>seg\<in>set segs. \<not> startswith seg ''SF:'' \<and> py_strip seg \<noteq> []
             \<longrightarrow> fst (section_result seg) = None" by simp
  show ?case
  proof (cases "\<not> startswith seg ''SF:'' \<and> py_strip seg \<noteq> []")
    case True
    with Cons.prems have "fst (section_result seg) = None" by simp
    with True Cons.IH [OF rest] show ?thesis
      by (simp add: process_lines_section)
  next
    case False
    with Cons.IH [OF rest] show ?thesis by auto
  qed
qed

lemma filter_text_eq:
  assumes "\<forall>seg\<in>set (re_split_sf x). \<not> startswith seg ''SF:'' \<and> py_strip seg \<noteq> []
             \<longrightarrow> fst (section_result seg) = None"
  shows "filter_text x = (None, concat (map segment_output (re_split_sf x)),
                          sum_list (map segment_removed (re_split_sf x)))"
proof -
  obtain e st' where r: "process_sections (re_split_sf x) init_vars = (e, st')"
    by (cases "process_sections (re_split_sf x) init_vars")
  with process_sections_ok [OF assms, of init_vars] have e: "e = None" by simp
  with r have "process_sections (re_split_sf x) init_vars = (None, st')" by simp
  from process_sections_success [OF this] r e show ?thesis
    by (simp add: filter_text_def init_vars_def)
qed

lemma well_split_map:
  assumes "well_split segs"
    and "\<forall>seg\<in>set segs. (has_sf (f seg) \<longrightarrow> has_sf seg) \<and> (has_match (f seg) \<longrightarrow> has_match seg)
           \<and> (is_marker seg \<longrightarrow> f seg = seg)"
  shows "well_split (map f segs)"
  using assms
  by (induction segs rule: well_split.induct) auto

lemma segments_idempotent:
  assumes ok: "filter_text x = (None, y, n)"
    and nr: "\<forall>seg\<in>set (re_split_sf x). \<forall>l\<in>set (split_on newline seg). \<not> removed l"
  shows "filter_text y = (None, y, 0) \<and> n = 0"
proof -
  let ?segs = "re_split_sf x"
  note s = filter_text_success [OF ok]
  have fixed: "segment_output (segment_output seg) = segment_output seg
      \<and> segment_removed (segment_output seg) = 0
      \<and> segment_removed seg = 0
      \<and> (\<not> startswith (segment_output seg) ''SF:'' \<and> py_strip (segment_output seg) \<noteq> []
             \<longrightarrow> fst (section_result (segment_output seg)) = None)
      \<and> (has_sf (segment_output seg) \<longrightarrow> has_sf seg)
      \<and> (has_match (segment_output seg) \<longrightarrow> has_match seg)"
    if "seg \<in> set ?segs" for seg
  proof -
    from s that have a: "\<not> startswith seg ''SF:'' \<and> py_strip seg \<noteq> []
        \<longrightarrow> fst (section_result seg) = None" by blast
    from nr that have b: "\<forall>l\<in>set (split_on newline seg). \<not> removed l" by blast
    from segment_fixed [OF a b] show ?thesis by simp
  qed
  have "is_marker seg \<longrightarrow> segment_output seg = seg" for seg
    by (simp add: is_marker_def segment_output_def)
  with fixed re_split_sf_shape [of x] have "well_split (map segment_output ?segs)"
    by (intro well_split_map) auto
  then have "re_split_sf (concat (map segment_output ?segs)) = map segment_output ?segs"
    by (rule well_split_unique)
  with s have split: "re_split_sf y = map segment_output ?segs" by simp
  have "\<forall>seg\<in>set (re_split_sf y). \<not> startswith seg ''SF:'' \<and> py_strip seg \<noteq> []
             \<longrightarrow> fst (section_result seg) = None"
    unfolding split using fixed by auto
  from filter_text_eq [OF this]
  have ft: "filter_text y = (None, concat (map segment_output (map segment_output ?segs)),
                          sum_list (map segment_removed (map segment_output ?segs)))"
    unfolding split .
  have m1: "map segment_output (map segment_output ?segs) = map segment_output ?segs"
    using fixed by simp
  have "map segment_removed (map segment_output ?segs) = map (\<lambda>seg. 0) ?segs"
    using fixed by simp
  then have m2: "sum_list (map segment_removed (map segment_output ?segs)) = 0"
    by (simp only: sum_list_0)
  have "map segment_removed ?segs = map (\<lambda>seg. 0) ?segs"
    using fixed by simp
  then have m3: "sum_list (map segment_removed ?segs) = 0"
    by (simp only: sum_list_0)
  from s have y: "concat (map segment_output ?segs) = y"
    and n: "n = sum_list (map segment_removed ?segs)" by simp_all
  from ft [unfolded m1 m2 y] n m3 show ?thesis by simp
qed

section \<open>Lines of the document and lines of its segments\<close>

lemma split_on_append:
  "split_on sep (u @ sep # v) = split_on sep u @ split_on sep v"
proof (induction u)
  case Nil
  then show ?case by simp
next
  case (Cons x u)
  obtain w ws where "split_on sep u = w # ws"
    by (cases "split_on sep u") auto
  with Cons show ?case by simp
qed

lemma split_on_append_free:
  "sep \<notin> set b \<Longrightarrow>
     split_on sep (u @ b) = butlast (split_on sep u) @ [last (split_on sep u) @ b]"
proof (induction u)
  case Nil
  then show ?case by (simp add: split_on_no_sep)
next
  case (Cons x u)
  obtain w ws where w: "split_on sep u = w # ws"
    by (cases "split_on sep u") auto
  obtain w' ws' where w': "split_on sep (u @ b) = w' # ws'"
    by (cases "split_on sep (u @ b)") auto
  from Cons w w' show ?case by (cases ws) auto
qed

lemma has_dtor_append: "has_dtor l \<Longrightarrow> has_dtor (l @ t)"
  by (induction l rule: has_dtor.induct) auto

lemma removed_append: "removed l \<Longrightarrow> removed (l @ t)"
  by (auto simp: removed_def is_fn_record_def startswith_iff has_dtor_append)

lemma marker_lines:
  assumes "is_marker m"
  obtains b where "m = b @ [newline]" and "newline \<notin> set b" and "\<not> removed b"
proof -
  from assms obtain t where t: "m = ''SF:'' @ t" by (auto simp: is_marker_def startswith_iff)
  from assms have l: "last m = newline" and f: "newline \<notin> set (butlast m)"
    by (simp_all add: is_marker_def)
  from t l have "t \<noteq> []" by (auto simp: newline_def)
  with t have "butlast m = ''SF:'' @ butlast t" by (simp add: butlast_append)
  then have "startswith (butlast m) ''SF:''" unfolding startswith_iff by blast
  then have "\<not> removed (butlast m)"
    by (auto simp: removed_def is_fn_record_def startswith_iff)
  moreover from t l have "m = butlast m @ [newline]"
    by (metis append_butlast_last_id append_is_Nil_conv list.distinct(1))
  ultimately show ?thesis using f that by blast
qed

lemma not_removed_Nil: "\<not> removed []"
  by (simp add: removed_def is_fn_record_def startswith_def)

lemma well_split_lines:
  assumes "well_split segs" and "seg \<in> set segs" and "l \<in> set (split_on newline seg)"
    and "removed l"
  shows "\<exists>l0\<in>set (split_on newline (concat segs)). removed l0"
  using assms(1,2)
proof (induction segs rule: well_split.induct)
  case 1
  then show ?case by simp
next
  case (2 c)
  with assms(3,4) show ?case by auto
next
  case (3 c m segs)
  from "3.prems"(1) have mk: "is_marker m" and ws: "well_split segs" by simp_all
  from mk obtain b where b: "m = b @ [newline]" and free: "newline \<notin> set b"
    and nb: "\<not> removed b" by (rule marker_lines)
  have "concat (c # m # segs) = (c @ b) @ newline # concat segs"
    by (simp add: b)
  then have lines: "split_on newline (concat (c # m # segs))
      = (butlast (split_on newline c) @ [last (split_on newline c) @ b])
        @ split_on newline (concat segs)"
    by (simp only: split_on_append split_on_append_free [OF free])
  from "3.prems"(2) consider "seg = c" | "seg = m" | "seg \<in> set segs" by auto
  then show ?case
  proof cases
    case 1
    with assms(3) have "l \<in> set (split_on newline c)" by simp
    moreover obtain ys y where "split_on newline c = ys @ [y]"
      by (cases "split_on newline c" rule: rev_cases) auto
    ultimately have "l \<in> set (butlast (split_on newline c)) \<or> l = last (split_on newline c)"
      by auto
    then show ?thesis
    proof
      assume "l \<in> set (butlast (split_on newline c))"
      with assms(4) show ?thesis unfolding lines by auto
    next
      assume "l = last (split_on newline c)"
      with removed_append [OF assms(4), of b] show ?thesis unfolding lines by auto
    qed
  next
    case 2
    have "split_on newline m = [b, []]"
      unfolding b using free by (simp add: split_on_append_sep)
    with 2 assms(3) have "l = b \<or> l = []" by simp
    with nb not_removed_Nil assms(4) show ?thesis by auto
  next
    case 3
    from "3.IH" [OF ws this] show ?thesis unfolding lines by auto
  qed
qed

lemma document_lines:
  assumes "\<forall>l\<in>set (split_on newline x). \<not> removed l"
  shows "\<forall>seg\<in>set (re_split_sf x). \<forall>l\<in>set (split_on newline seg). \<not> removed l"
proof (intro ballI notI)
  fix seg l
  assume "seg \<in> set (re_split_sf x)" and "l \<in> set (split_on newline seg)" and "removed l"
  with re_split_sf_shape [of x]
  have "\<exists>l0\<in>set (split_on newline (concat (re_split_sf x))). removed l0"
    by (intro well_split_lines) auto
  with re_split_sf_shape [of x] assms show False by simp
qed

section \<open>A summary line inside its section\<close>









section \<open>Claim C1: the counters of a section\<close>

lemma records_first_removed:
  "records_first ls \<Longrightarrow> \<forall>l\<in>set (dropWhile (\<lambda>l. \<not> is_summary l) ls). \<not> removed l"
  by (simp add: records_first_def removed_def)

text \<open>
  What the code does, piece by piece: when the filter succeeds, the text written is the
  concatenation of what each piece of the split contributes on its own, with its own
  counters started at 0, and the total is the sum of the removals of the pieces. In a
  piece whose \<^verbatim>\<open>FN:\<close>, \<^verbatim>\<open>FNDA:\<close> and \<^verbatim>\<open>FNA:\<close> lines all precede its summary lines, an \<^verbatim>\<open>FNF:\<close>
  line carries its integer minus the number of lines removed from the piece and an \<^verbatim>\<open>FNH:\<close>
  line its integer minus the number of removed \<^verbatim>\<open>FNA:\<close> lines with a positive hit count.
\<close>

lemma counters_per_segment:
  assumes "filter_text content = (None, out, n)"
  shows "out = concat (map segment_output (re_split_sf content))
         \<and> n = sum_list (map segment_removed (re_split_sf content))
         \<and> (\<forall>seg\<in>set (re_split_sf content).
               \<not> startswith seg ''SF:'' \<and> py_strip seg \<noteq> [] \<and> records_first (split_on newline seg)
               \<longrightarrow> segment_removed seg = removed_count (split_on newline seg)
                   \<and> (\<exists>ls'. segment_output seg = join_with newline ls'
                         \<and> list_all2 (rewritten (removed_count (split_on newline seg))
                                                 (removed_hit_count (split_on newline seg)))
                              (filter (\<lambda>l. \<not> removed l) (split_on newline seg)) ls'))"
proof -
  note s = filter_text_success [OF assms]
  have "segment_removed seg = removed_count (split_on newline seg)
        \<and> (\<exists>ls'. segment_output seg = join_with newline ls'
              \<and> list_all2 (rewritten (removed_count (split_on newline seg))
                                      (removed_hit_count (split_on newline seg)))
                   (filter (\<lambda>l. \<not> removed l) (split_on newline seg)) ls')"
    if seg: "seg \<in> set (re_split_sf content)" and m: "\<not> startswith seg ''SF:''"
      and w: "py_strip seg \<noteq> []" and rf: "records_first (split_on newline seg)" for seg
  proof -
    from s seg m w have "fst (section_result seg) = None" by blast
    then obtain st' where r: "process_lines (split_on newline seg) init_vars = (None, st')"
      unfolding section_result_def by (cases "process_lines (split_on newline seg) init_vars") simp
    from process_lines_counters [OF r]
    have t: "total_filtered st' = removed_count (split_on newline seg)"
      by (simp add: init_vars_def)
    from process_lines_ordered [OF r records_first_removed [OF rf]]
    obtain ls' where "filtered_lines st' = ls'"
      and "list_all2 (rewritten (removed_count (split_on newline seg))
                                (removed_hit_count (split_on newline seg)))
             (filter (\<lambda>l. \<not> removed l) (split_on newline seg)) ls'"
      by (auto simp: init_vars_def)
    with t r m w show ?thesis
      by (auto simp: segment_removed_def segment_output_def section_result_def)
  qed
  with s show ?thesis by blast
qed

text \<open>
  Claim C1: in every section of the document, that is from one \<^verbatim>\<open>SF:\<close> line to the next,
  whose per-function records precede its summary lines, \<^verbatim>\<open>FNF\<close> after filtering is the
  value before minus the number of records removed from the section, the counters start
  at 0 in each section, and the total is the sum over the sections. The code does not
  keep this where \<^verbatim>\<open>SF:\<close> occurs inside a line: the split cuts the section there and the
  counters start again. In the one section below, the record of the destructor is removed
  (the count reported is 1), the split cuts the line \<^verbatim>\<open>FN:2,NSF::foo()\<close> after \<^verbatim>\<open>N\<close>, and
  \<^verbatim>\<open>FNF:2\<close> is written back as \<^verbatim>\<open>FNF:2\<close>, where the claim gives \<^verbatim>\<open>FNF:1\<close>.
\<close>

theorem midline_sf_restarts_counters:
  "re_split_sf ''SF:a.cpp\<newline>FN:1,_ZN1XD0Ev\<newline>FN:2,NSF::foo()\<newline>FNF:2\<newline>FNH:0\<newline>end_of_record\<newline>''
     = ['''', ''SF:a.cpp\<newline>'', ''FN:1,_ZN1XD0Ev\<newline>FN:2,N'', ''SF::foo()\<newline>'',
        ''FNF:2\<newline>FNH:0\<newline>end_of_record\<newline>'']
   \<and> filter_text ''SF:a.cpp\<newline>FN:1,_ZN1XD0Ev\<newline>FN:2,NSF::foo()\<newline>FNF:2\<newline>FNH:0\<newline>end_of_record\<newline>''
     = (None, ''SF:a.cpp\<newline>FN:2,NSF::foo()\<newline>FNF:2\<newline>FNH:0\<newline>end_of_record\<newline>'', 1)"
  by code_simp

section \<open>Claim C2: Scenario A\<close>

text \<open>
  Claim C2. On the document of Scenario A (one section with the records of a destructor
  \<^verbatim>\<open>_ZN1XD0Ev\<close> and of a function \<^verbatim>\<open>real\<close>, \<^verbatim>\<open>FNF:2\<close> and \<^verbatim>\<open>FNH:1\<close>) the filter writes exactly
  the section without the two destructor records, with \<^verbatim>\<open>FNF:0\<close> and \<^verbatim>\<open>FNH:1\<close>: both removed
  lines count for the found-adjustment, and the removed \<^verbatim>\<open>FNDA:\<close> line with 3 hits does not
  count for the hit-adjustment. The count printed is 2.
\<close>

theorem scenario_a:
  "filter_text ''SF:a.cpp\<newline>FN:1,_ZN1XD0Ev\<newline>FNDA:3,_ZN1XD0Ev\<newline>FN:2,real\<newline>FNDA:0,real\<newline>FNF:2\<newline>FNH:1\<newline>end_of_record\<newline>''
     = (None, ''SF:a.cpp\<newline>FN:2,real\<newline>FNDA:0,real\<newline>FNF:0\<newline>FNH:1\<newline>end_of_record\<newline>'', 2)
   \<and> (let w = \<lparr>files = [''in.info'' \<mapsto> ''SF:a.cpp\<newline>FN:1,_ZN1XD0Ev\<newline>FNDA:3,_ZN1XD0Ev\<newline>FN:2,real\<newline>FNDA:0,real\<newline>FNF:2\<newline>FNH:1\<newline>end_of_record\<newline>''],
                 writable = (\<lambda>p. True), stdout = []\<rparr>
       in case filter_lcov ''in.info'' ''out.info'' w of
            (e, w') \<Rightarrow>
              e = None
              \<and> files w' ''out.info'' = Some ''SF:a.cpp\<newline>FN:2,real\<newline>FNDA:0,real\<newline>FNF:0\<newline>FNH:1\<newline>end_of_record\<newline>''
              \<and> stdout w' = [''Filtered 2 destructor entries''])"
  by code_simp

section \<open>Claim C3: the removal decision\<close>

text \<open>
  One step of the inner loop: a line with one of the three prefixes is dropped and adds 1
  to the found-adjustment and to the total if and only if it contains the pattern.
\<close>

lemma process_line_decision:
  assumes "startswith line ''FN:'' \<or> startswith line ''FNDA:'' \<or> startswith line ''FNA:''"
  shows "(has_dtor line \<longleftrightarrow>
            filtered_lines (snd (process_line line st)) = filtered_lines st
            \<and> fnf_adjust (snd (process_line line st)) = fnf_adjust st + 1
            \<and> total_filtered (snd (process_line line st)) = total_filtered st + 1)
         \<and> (\<not> has_dtor line \<longleftrightarrow>
              process_line line st = (None, st\<lparr>filtered_lines := filtered_lines st @ [line]\<rparr>))"
proof (cases "has_dtor line")
  case True
  with assms have r: "removed line"
    by (simp add: removed_def is_fn_record_def)
  have "process_line line st \<noteq> (None, st\<lparr>filtered_lines := filtered_lines st @ [line]\<rparr>)"
  proof
    assume "process_line line st = (None, st\<lparr>filtered_lines := filtered_lines st @ [line]\<rparr>)"
    then have "filtered_lines (snd (process_line line st)) = filtered_lines st @ [line]"
      by simp
    with process_line_removed(1) [OF r, of st] show False by simp
  qed
  with True process_line_removed [OF r, of st] show ?thesis by simp
next
  case False
  with assms have "process_line line st = (None, st\<lparr>filtered_lines := filtered_lines st @ [line]\<rparr>)"
    by (simp add: process_line_kept is_fn_record_def)
  with False show ?thesis by simp
qed



section \<open>Claim C4: lines that pass through\<close>

text \<open>
  Claim C4, as stated, fails: a content segment that holds nothing but white space is
  skipped by the test \<^verbatim>\<open>section.strip()\<close>, so two blank lines before the first marker are
  not written.
\<close>

theorem blank_lines_counterexample:
  "filter_text ''\<newline>\<newline>SF:a\<newline>'' = (None, ''SF:a\<newline>'', 0)
   \<and> filter is_plain (split_on newline ''\<newline>\<newline>SF:a\<newline>'') = ['''', '''', '''']
   \<and> filter is_plain (split_on newline ''SF:a\<newline>'') = ['''']"
  by code_simp

text \<open>
  Claim C4, amended. When the filter succeeds, the text written is the concatenation of
  what the segments contribute: a marker segment is written as it is, a content segment
  of white space only contributes nothing, and a content segment with a character that is
  not white space is written with its lines that start with none of \<^verbatim>\<open>FN:\<close>, \<^verbatim>\<open>FNDA:\<close>,
  \<^verbatim>\<open>FNA:\<close>, \<^verbatim>\<open>FNF:\<close>, \<^verbatim>\<open>FNH:\<close> unmodified and in the same relative order.
\<close>

theorem passthrough_lines:
  assumes "filter_text content = (None, out, n)"
  shows "out = concat (map segment_output (re_split_sf content))
         \<and> (\<forall>seg\<in>set (re_split_sf content).
               (startswith seg ''SF:'' \<longrightarrow> segment_output seg = seg)
               \<and> (\<not> startswith seg ''SF:'' \<and> py_strip seg = [] \<longrightarrow> segment_output seg = [])
               \<and> (\<not> startswith seg ''SF:'' \<and> py_strip seg \<noteq> [] \<longrightarrow>
                    (\<exists>ls'. segment_output seg = join_with newline ls'
                       \<and> filter is_other ls' = filter is_other (split_on newline seg))))"
proof -
  note s = filter_text_success [OF assms]
  have "\<exists>ls'. segment_output seg = join_with newline ls'
          \<and> filter is_other ls' = filter is_other (split_on newline seg)"
    if "seg \<in> set (re_split_sf content)" and m: "\<not> startswith seg ''SF:''"
      and w: "py_strip seg \<noteq> []" for seg
  proof -
    from s that have "fst (section_result seg) = None" by blast
    from section_passthrough [OF this] m w show ?thesis
      by (auto simp: segment_output_def)
  qed
  moreover have "startswith seg ''SF:'' \<Longrightarrow> segment_output seg = seg" for seg
    by (simp add: segment_output_def)
  moreover have "\<not> startswith seg ''SF:'' \<and> py_strip seg = [] \<Longrightarrow> segment_output seg = []" for seg
    by (simp add: segment_output_def)
  ultimately show ?thesis using s by blast
qed

theorem passthrough_lines_witness:
  "filter_text ''\<newline>SF:a\<newline>DA:1,1\<newline>FN:1,_ZN1XD0Ev\<newline>\<newline>FNF:1\<newline>end_of_record\<newline>''
     = (None, ''SF:a\<newline>DA:1,1\<newline>\<newline>FNF:0\<newline>end_of_record\<newline>'', 1)
   \<and> ''SF:a\<newline>DA:1,1\<newline>\<newline>FNF:0\<newline>end_of_record\<newline>''
       = concat (map segment_output (re_split_sf ''\<newline>SF:a\<newline>DA:1,1\<newline>FN:1,_ZN1XD0Ev\<newline>\<newline>FNF:1\<newline>end_of_record\<newline>''))
   \<and> segment_output ''SF:a\<newline>'' = ''SF:a\<newline>''
   \<and> segment_output ''\<newline>'' = []
   \<and> segment_output ''DA:1,1\<newline>FN:1,_ZN1XD0Ev\<newline>\<newline>FNF:1\<newline>end_of_record\<newline>''
       = ''DA:1,1\<newline>\<newline>FNF:0\<newline>end_of_record\<newline>''"
proof -
  let ?c = "''\<newline>SF:a\<newline>DA:1,1\<newline>FN:1,_ZN1XD0Ev\<newline>\<newline>FNF:1\<newline>end_of_record\<newline>''"
  have h: "filter_text ?c = (None, ''SF:a\<newline>DA:1,1\<newline>\<newline>FNF:0\<newline>end_of_record\<newline>'', 1)"
    by code_simp
  have a: "segment_output ''SF:a\<newline>'' = ''SF:a\<newline>''"
    and b: "segment_output ''\<newline>'' = []"
    and c: "segment_output ''DA:1,1\<newline>FN:1,_ZN1XD0Ev\<newline>\<newline>FNF:1\<newline>end_of_record\<newline>''
              = ''DA:1,1\<newline>\<newline>FNF:0\<newline>end_of_record\<newline>''"
    by code_simp+
  from passthrough_lines [OF h]
  have "''SF:a\<newline>DA:1,1\<newline>\<newline>FNF:0\<newline>end_of_record\<newline>''
          = concat (map segment_output (re_split_sf ?c))"
    by (rule conjunct1)
  with h a b c show ?thesis by simp
qed

section \<open>Claim C5: the partition\<close>

text \<open>
  What the split does: the segments, concatenated in order, are the original text;
  content segments and markers alternate, beginning and ending with a content segment;
  each marker starts with \<^verbatim>\<open>SF:\<close>, at whatever column that occurrence stands, and ends with
  the first newline after it; a content segment before a marker holds no \<^verbatim>\<open>SF:\<close>, and the
  last content segment holds no \<^verbatim>\<open>SF:\<close> with a newline after it. A segment that the program
  classifies as a marker, because it starts with \<^verbatim>\<open>SF:\<close>, is such a match or the last
  segment, without any newline.
\<close>

lemma partition_shape:
  "concat (re_split_sf s) = s
   \<and> well_split (re_split_sf s)
   \<and> (\<forall>seg\<in>set (re_split_sf s). startswith seg ''SF:'' \<longrightarrow>
         is_marker seg \<or> (seg = last (re_split_sf s) \<and> newline \<notin> set seg))"
  using re_split_sf_shape [of s] well_split_classified [of "re_split_sf s"] by blast

text \<open>
  Claim C5: the segments concatenated give back the text, and the markers are exactly the
  lines that begin with \<^verbatim>\<open>SF:\<close>, so that no \<^verbatim>\<open>SF:\<close> in the middle of a line is taken for a
  marker. The first half holds (\<open>partition_shape\<close>); the second does not, since the pattern
  of the split is not anchored at the start of a line, while every other prefix is tested
  with \<^verbatim>\<open>startswith\<close>. In the document below the only line that begins with \<^verbatim>\<open>SF:\<close> is the
  first one, and the split also cuts \<^verbatim>\<open>SF::foo()\<close> out of the record of the function
  \<^verbatim>\<open>NSF::foo()\<close> and passes it on as a marker. In the second document the record of a
  destructor \<^verbatim>\<open>FN:1,SF:D0Ev\<close> is cut before the pattern and is not removed.
\<close>

theorem midline_sf_marker:
  "re_split_sf ''SF:a.cpp\<newline>FN:2,NSF::foo()\<newline>FNF:1\<newline>''
     = ['''', ''SF:a.cpp\<newline>'', ''FN:2,N'', ''SF::foo()\<newline>'', ''FNF:1\<newline>'']
   \<and> filter (\<lambda>seg. startswith seg ''SF:'') (re_split_sf ''SF:a.cpp\<newline>FN:2,NSF::foo()\<newline>FNF:1\<newline>'')
     = [''SF:a.cpp\<newline>'', ''SF::foo()\<newline>'']
   \<and> filter (\<lambda>l. startswith l ''SF:'') (split_on newline ''SF:a.cpp\<newline>FN:2,NSF::foo()\<newline>FNF:1\<newline>'')
     = [''SF:a.cpp'']
   \<and> re_split_sf ''SF:a.cpp\<newline>FN:1,SF:D0Ev\<newline>FNF:1\<newline>''
     = ['''', ''SF:a.cpp\<newline>'', ''FN:1,'', ''SF:D0Ev\<newline>'', ''FNF:1\<newline>'']
   \<and> filter_text ''SF:a.cpp\<newline>FN:1,SF:D0Ev\<newline>FNF:1\<newline>''
     = (None, ''SF:a.cpp\<newline>FN:1,SF:D0Ev\<newline>FNF:1\<newline>'', 0)"
  by code_simp

section \<open>Claim C6: an unparseable hit count\<close>

text \<open>
  Claim C6, as stated, fails: the hit count of an \<^verbatim>\<open>FNA:\<close> line is parsed only after the
  line has matched the destructor pattern (lines 30 and 34 to 36). A document with the
  line \<^verbatim>\<open>FNA:foo,abc\<close> is filtered without failure and written unchanged.
\<close>

theorem fna_unparsed_counterexample:
  "''FNA:foo,abc'' \<in> set (split_on newline ''FNA:foo,abc\<newline>'')
   \<and> startswith ''FNA:foo,abc'' ''FNA:''
   \<and> second (split_on CHR '','' ''FNA:foo,abc'') = Inr ''abc''
   \<and> py_int ''abc'' = None
   \<and> filter_text ''FNA:foo,abc\<newline>'' = (None, ''FNA:foo,abc\<newline>'', 0)"
  by code_simp

text \<open>
  Claim C6, amended. If a content segment of the document has a line that starts with
  \<^verbatim>\<open>FNA:\<close>, contains the destructor pattern and has a second comma-separated field that is
  not a parseable integer, the filter fails with a \<open>FormatError\<close>; nothing recovers from it,
  and the files and the standard output are left as they were.
\<close>

theorem fna_format_error:
  assumes "seg \<in> set (re_split_sf content)" and "\<not> startswith seg ''SF:''"
    and "line \<in> set (split_on newline seg)"
    and "startswith line ''FNA:''" and "has_dtor line"
    and "second (split_on CHR '','' line) = Inr field" and "py_int field = None"
  shows "fst (filter_text content) = Some FormatError
         \<and> (files w input_file = Some content \<longrightarrow>
              filter_lcov input_file output_file w = (Some FormatError, w))"
proof -
  from assms(6) have "2 \<le> length (split_on CHR '','' line)"
    and "split_on CHR '','' line ! 1 = field"
    by (auto simp: second_def split: if_splits)
  with assms(4,5,7) have "fst (process_line line st) \<noteq> None" for st
    by (simp add: process_line_def Let_def)
  with assms(1,2,3,4) have "fst (filter_text content) = Some FormatError"
    by (rule filter_text_failure)
  then show ?thesis by (simp add: filter_lcov_failure)
qed

theorem fna_format_error_witness:
  "''FNA:_ZN1XD0Ev,abc\<newline>'' \<in> set (re_split_sf ''SF:a\<newline>FNA:_ZN1XD0Ev,abc\<newline>'')
   \<and> \<not> startswith ''FNA:_ZN1XD0Ev,abc\<newline>'' ''SF:''
   \<and> ''FNA:_ZN1XD0Ev,abc'' \<in> set (split_on newline ''FNA:_ZN1XD0Ev,abc\<newline>'')
   \<and> startswith ''FNA:_ZN1XD0Ev,abc'' ''FNA:'' \<and> has_dtor ''FNA:_ZN1XD0Ev,abc''
   \<and> second (split_on CHR '','' ''FNA:_ZN1XD0Ev,abc'') = Inr ''abc'' \<and> py_int ''abc'' = None
   \<and> fst (filter_text ''SF:a\<newline>FNA:_ZN1XD0Ev,abc\<newline>'') = Some FormatError
   \<and> fst (filter_lcov ''in.info'' ''out.info''
        \<lparr>files = [''in.info'' \<mapsto> ''SF:a\<newline>FNA:_ZN1XD0Ev,abc\<newline>''], writable = (\<lambda>p. True), stdout = []\<rparr>)
       = Some FormatError
   \<and> files (snd (filter_lcov ''in.info'' ''out.info''
        \<lparr>files = [''in.info'' \<mapsto> ''SF:a\<newline>FNA:_ZN1XD0Ev,abc\<newline>''], writable = (\<lambda>p. True), stdout = []\<rparr>))
        ''out.info'' = None"
proof -
  let ?c = "''SF:a\<newline>FNA:_ZN1XD0Ev,abc\<newline>''"
  let ?w = "\<lparr>files = [''in.info'' \<mapsto> ?c], writable = (\<lambda>p. True), stdout = []\<rparr>"
  have 1: "''FNA:_ZN1XD0Ev,abc\<newline>'' \<in> set (re_split_sf ?c)" by code_simp
  have 2: "\<not> startswith ''FNA:_ZN1XD0Ev,abc\<newline>'' ''SF:''" by code_simp
  have 3: "''FNA:_ZN1XD0Ev,abc'' \<in> set (split_on newline ''FNA:_ZN1XD0Ev,abc\<newline>'')" by code_simp
  have 4: "startswith ''FNA:_ZN1XD0Ev,abc'' ''FNA:''" by code_simp
  have 5: "has_dtor ''FNA:_ZN1XD0Ev,abc''" by code_simp
  have 6: "second (split_on CHR '','' ''FNA:_ZN1XD0Ev,abc'') = Inr ''abc''" by code_simp
  have 7: "py_int ''abc'' = None" by code_simp
  have 8: "files ?w ''in.info'' = Some ?c" by simp
  from fna_format_error [OF 1 2 3 4 5 6 7, of ?w "''in.info''" "''out.info''"] 8
  have "fst (filter_text ?c) = Some FormatError"
    and "filter_lcov ''in.info'' ''out.info'' ?w = (Some FormatError, ?w)"
    by blast+
  with 1 2 3 4 5 6 7 show ?thesis by simp
qed

section \<open>Claim C7: an unparseable summary count\<close>

text \<open>
  Claim C7, as stated, fails: of the text after \<^verbatim>\<open>FNF:\<close> only the part before the next
  colon is parsed (\<^verbatim>\<open>line.split(':')[1]\<close>). The remainder \<^verbatim>\<open>3:extra\<close> of the line
  \<^verbatim>\<open>FNF:3:extra\<close> is not a parseable integer, and the filter succeeds on it.
\<close>

theorem summary_remainder_counterexample:
  "''FNF:3:extra'' \<in> set (split_on newline ''FNF:3:extra\<newline>'')
   \<and> startswith ''FNF:3:extra'' ''FNF:''
   \<and> drop 4 ''FNF:3:extra'' = ''3:extra''
   \<and> py_int ''3:extra'' = None
   \<and> filter_text ''FNF:3:extra\<newline>'' = (None, ''FNF:3\<newline>'', 0)"
  by code_simp

text \<open>
  Claim C7, amended. If a content segment of the document has an \<^verbatim>\<open>FNF:\<close> or \<^verbatim>\<open>FNH:\<close> line
  whose text between the first colon and the next colon (or the end of the line) is not a
  parseable integer, the filter fails with a \<open>FormatError\<close>; the failure comes before the
  output file is opened, so the files and the standard output are left as they were.
\<close>

theorem summary_format_error:
  assumes "seg \<in> set (re_split_sf content)" and "\<not> startswith seg ''SF:''"
    and "line \<in> set (split_on newline seg)"
    and "is_summary line"
    and "py_int (takeWhile (\<lambda>c. c \<noteq> CHR '':'') (drop 4 line)) = None"
  shows "fst (filter_text content) = Some FormatError
         \<and> (files w input_file = Some content \<longrightarrow>
              filter_lcov input_file output_file w = (Some FormatError, w))"
proof -
  from assms(4,5) have c: "count_field line = Inl FormatError"
    by (simp add: count_field_eq)
  have "fst (process_line line st) \<noteq> None" for st
  proof (cases "startswith line ''FNF:''")
    case True
    with c show ?thesis by (simp add: process_line_fnf render_count_def)
  next
    case False
    with assms(4) have "startswith line ''FNH:''" by (simp add: is_summary_def)
    with c show ?thesis by (simp add: process_line_fnh render_count_def)
  qed
  moreover from assms(4) have "startswith line (CHR ''F'' # ''NF:'') \<or> startswith line (CHR ''F'' # ''NH:'')"
    by (simp add: is_summary_def)
  ultimately have "fst (filter_text content) = Some FormatError"
    using assms(1,2,3) filter_text_failure by blast
  then show ?thesis by (simp add: filter_lcov_failure)
qed

theorem summary_format_error_witness:
  "''FNF:abc\<newline>'' \<in> set (re_split_sf ''SF:a\<newline>FNF:abc\<newline>'')
   \<and> \<not> startswith ''FNF:abc\<newline>'' ''SF:''
   \<and> ''FNF:abc'' \<in> set (split_on newline ''FNF:abc\<newline>'')
   \<and> is_summary ''FNF:abc''
   \<and> py_int (takeWhile (\<lambda>c. c \<noteq> CHR '':'') (drop 4 ''FNF:abc'')) = None
   \<and> fst (filter_text ''SF:a\<newline>FNF:abc\<newline>'') = Some FormatError
   \<and> fst (filter_lcov ''in.info'' ''out.info''
        \<lparr>files = [''in.info'' \<mapsto> ''SF:a\<newline>FNF:abc\<newline>''], writable = (\<lambda>p. True), stdout = []\<rparr>)
       = Some FormatError
   \<and> files (snd (filter_lcov ''in.info'' ''out.info''
        \<lparr>files = [''in.info'' \<mapsto> ''SF:a\<newline>FNF:abc\<newline>''], writable = (\<lambda>p. True), stdout = []\<rparr>))
        ''out.info'' = None"
proof -
  let ?c = "''SF:a\<newline>FNF:abc\<newline>''"
  let ?w = "\<lparr>files = [''in.info'' \<mapsto> ?c], writable = (\<lambda>p. True), stdout = []\<rparr>"
  have 1: "''FNF:abc\<newline>'' \<in> set (re_split_sf ?c)" by code_simp
  have 2: "\<not> startswith ''FNF:abc\<newline>'' ''SF:''" by code_simp
  have 3: "''FNF:abc'' \<in> set (split_on newline ''FNF:abc\<newline>'')" by code_simp
  have 4: "is_summary ''FNF:abc''" by code_simp
  have 5: "py_int (takeWhile (\<lambda>c. c \<noteq> CHR '':'') (drop 4 ''FNF:abc'')) = None" by code_simp
  have 8: "files ?w ''in.info'' = Some ?c" by simp
  from summary_format_error [OF 1 2 3 4 5, of ?w "''in.info''" "''out.info''"] 8
  have "fst (filter_text ?c) = Some FormatError"
    and "filter_lcov ''in.info'' ''out.info'' ?w = (Some FormatError, ?w)"
    by blast+
  with 1 2 3 4 5 show ?thesis by simp
qed

section \<open>Claim C8: idempotence\<close>

text \<open>
  Claim C8. If no line of the document is an \<^verbatim>\<open>FN:\<close>, \<^verbatim>\<open>FNDA:\<close> or \<^verbatim>\<open>FNA:\<close> line that contains
  the destructor pattern, and the filter succeeds on the document with output \<open>y\<close>, then
  the filter succeeds on \<open>y\<close> and its output is \<open>y\<close> again, with a count of 0: the first
  output is a fixed point. In terms of files: filtering the file written by the first
  run writes a file with the same content.
\<close>

theorem filter_idempotent:
  assumes "\<forall>l\<in>set (split_on newline x). \<not> removed l"
    and "filter_text x = (None, y, n)"
  shows "filter_text y = (None, y, 0)
         \<and> (files w p = Some x \<and> filter_lcov p q w = (None, w1) \<longrightarrow>
              files w1 q = Some y
              \<and> (writable w1 r \<longrightarrow>
                   fst (filter_lcov q r w1) = None
                   \<and> files (snd (filter_lcov q r w1)) r = Some y))"
proof -
  from segments_idempotent [OF assms(2) document_lines [OF assms(1)]]
  have again: "filter_text y = (None, y, 0)" by simp
  have "files w1 q = Some y
        \<and> (writable w1 r \<longrightarrow>
             fst (filter_lcov q r w1) = None \<and> files (snd (filter_lcov q r w1)) r = Some y)"
    if f: "files w p = Some x" and run: "filter_lcov p q w = (None, w1)"
  proof -
    from f run assms(2) have w1: "files w1 q = Some y"
      by (auto simp: filter_lcov_def Let_def split: if_splits option.splits)
    with again have "writable w1 r \<Longrightarrow>
        fst (filter_lcov q r w1) = None \<and> files (snd (filter_lcov q r w1)) r = Some y"
      by (simp add: filter_lcov_def py_str_0)
    with w1 show ?thesis by blast
  qed
  with again show ?thesis by blast
qed

theorem filter_idempotent_witness:
  "filter removed (split_on newline ''SF:a\<newline>FN:1,main\<newline>FNF: 1\<newline>\<newline>SF:b\<newline>  \<newline>SF:c\<newline>FNH:+0:x\<newline>'') = []
   \<and> filter_text ''SF:a\<newline>FN:1,main\<newline>FNF: 1\<newline>\<newline>SF:b\<newline>  \<newline>SF:c\<newline>FNH:+0:x\<newline>''
       = (None, ''SF:a\<newline>FN:1,main\<newline>FNF:1\<newline>\<newline>SF:b\<newline>SF:c\<newline>FNH:0\<newline>'', 0)
   \<and> filter_text ''SF:a\<newline>FN:1,main\<newline>FNF:1\<newline>\<newline>SF:b\<newline>SF:c\<newline>FNH:0\<newline>''
       = (None, ''SF:a\<newline>FN:1,main\<newline>FNF:1\<newline>\<newline>SF:b\<newline>SF:c\<newline>FNH:0\<newline>'', 0)"
proof -
  let ?x = "''SF:a\<newline>FN:1,main\<newline>FNF: 1\<newline>\<newline>SF:b\<newline>  \<newline>SF:c\<newline>FNH:+0:x\<newline>''"
  let ?y = "''SF:a\<newline>FN:1,main\<newline>FNF:1\<newline>\<newline>SF:b\<newline>SF:c\<newline>FNH:0\<newline>''"
  have a: "filter removed (split_on newline ?x) = []" by code_simp
  then have a': "\<forall>l\<in>set (split_on newline ?x). \<not> removed l"
    by (simp only: filter_empty_conv)
  have b: "filter_text ?x = (None, ?y, 0)" by code_simp
  from filter_idempotent [OF a' b] have "filter_text ?y = (None, ?y, 0)" by (rule conjunct1)
  with a b show ?thesis by (simp only: simp_thms)
qed

section \<open>Claim C9: subtraction without a lower bound\<close>




section \<open>Claim C10: the canonical form of the summary lines\<close>



end
